theory Spec2Isabelle
  imports Complex_Main "HOL-Library.AList"
begin

section \<open>The traffic-light controller of \<^verbatim>\<open>Solut.py\<close>\<close>

text \<open>
  \<^verbatim>\<open>ParticipantController\<close> picks, for every intersection (``tls''), the green phase
  to run next and its duration. The model follows the Python method by method.

  Numbers: Python's \<^verbatim>\<open>int\<close> phase indices and counters are \<^typ>\<open>int\<close>. Python's
  \<^verbatim>\<open>float\<close> values (waiting counts, times, efficiencies, durations) are modelled as
  \<^typ>\<open>real\<close>: every operation is the exact one, IEEE rounding is left out.

  Exceptions are values of \<open>error\<close>; a method that can raise returns \<open>error + 'a\<close>.
  The base class \<^verbatim>\<open>IntersectionController\<close> is not part of the source: what the
  subclass reads from it (\<^verbatim>\<open>tls_ids\<close>, \<^verbatim>\<open>get_phase_catalog\<close>) is a parameter of
  the constructor.
\<close>

subsection \<open>Data\<close>

datatype error =
    RuntimeError string
  | ZeroDivisionError
  | KeyError string
  | IndexError

text \<open>A phase of the static catalog: \<^verbatim>\<open>phase.index\<close>, \<^verbatim>\<open>phase.state\<close>.\<close>

record phase =
  index :: int
  state :: string

text \<open>
  The controller object. \<open>tls_ids\<close> is the attribute inherited from the base class,
  the other fields are assigned in \<^verbatim>\<open>__init__\<close>.
\<close>

record controller =
  tls_ids :: "string list"
  min_green_duration :: real
  max_green_duration :: real
  green_phases :: "string \<rightharpoonup> int list"
  cursor :: "string \<rightharpoonup> int"
  last_phase_actions :: "string \<rightharpoonup> (int \<rightharpoonup> int)"

text \<open>
  \<^verbatim>\<open>observation["lights"][tls_id]\<close>: the code tests the value for truth
  (\<^verbatim>\<open>if not light_info\<close>) and then reads three keys with \<^verbatim>\<open>.get\<close>. \<open>Falsy\<close> stands
  for every value Python takes as false (\<^verbatim>\<open>None\<close>, the empty dict); \<open>Info\<close> is a
  non-empty dict, each of the three keys present (\<open>Some\<close>) or not.
\<close>

record light_info =
  time_to_next_switch :: "real option"
  current_phase :: "int option"
  time_in_phase :: "real option"

datatype light_entry = Falsy | Info light_info

text \<open>The observation dict; a top-level key that is missing is \<open>None\<close>.\<close>

record observation =
  lights :: "(string \<rightharpoonup> light_entry) option"
  waiting_vehicles :: "(string \<rightharpoonup> (int \<rightharpoonup> real)) option"

text \<open>One entry of the decision: \<^verbatim>\<open>{"phase_id": ..., "duration": ...}\<close>.\<close>

record action =
  phase_id :: int
  duration :: real

text \<open>
  The decision dict is an association list in insertion order; \<^verbatim>\<open>decision[k] = v\<close> is
  \<^const>\<open>AList.update\<close> (overwrite in place, or append), and the dict is false when the
  list is empty.
\<close>

type_synonym decision = "(string \<times> action) list"

subsection \<open>Construction\<close>

text \<open>
  \<^verbatim>\<open>"y" not in phase.state and any(ch in ("G", "g") for ch in phase.state)\<close>
\<close>

definition is_green :: "phase \<Rightarrow> bool" where
  "is_green ph =
     (CHR ''y'' \<notin> set (state ph) \<and>
      list_ex (\<lambda>ch. ch = CHR ''G'' \<or> ch = CHR ''g'') (state ph))"

definition greens_of :: "phase list \<Rightarrow> int list" where
  "greens_of phases = map index (filter is_green phases)"

text \<open>The first loop of \<^verbatim>\<open>__init__\<close>, over \<^verbatim>\<open>self.tls_ids\<close>.\<close>

fun init_phases :: "(string \<Rightarrow> phase list) \<Rightarrow> string list \<Rightarrow> controller \<Rightarrow> error + controller" where
  "init_phases catalog [] c = Inr c"
| "init_phases catalog (tls_id # rest) c =
     (let greens = greens_of (catalog tls_id) in
      if greens = [] then Inl (RuntimeError tls_id)
      else init_phases catalog rest
             (c\<lparr>green_phases := (green_phases c)(tls_id \<mapsto> sort greens),
                cursor := (cursor c)(tls_id \<mapsto> 0)\<rparr>))"

text \<open>The second loop: an empty counter dict for every intersection.\<close>

fun init_actions :: "string list \<Rightarrow> controller \<Rightarrow> controller" where
  "init_actions [] c = c"
| "init_actions (tls_id # rest) c =
     init_actions rest (c\<lparr>last_phase_actions := (last_phase_actions c)(tls_id \<mapsto> Map.empty)\<rparr>)"

definition init :: "string list \<Rightarrow> (string \<Rightarrow> phase list) \<Rightarrow> error + controller" where
  "init ids catalog =
     (case init_phases catalog ids
             \<lparr>tls_ids = ids, min_green_duration = 7, max_green_duration = 70,
              green_phases = Map.empty, cursor = Map.empty, last_phase_actions = Map.empty\<rparr> of
        Inl e \<Rightarrow> Inl e
      | Inr c \<Rightarrow> Inr (init_actions ids c))"

subsection \<open>Traffic and efficiency\<close>

text \<open>
  \<^verbatim>\<open>observation.get("waiting_vehicles", {}).get(tls_id, {}).get(phase_id, 0)\<close>
\<close>

definition calculate_waiting_traffic :: "observation \<Rightarrow> string \<Rightarrow> int \<Rightarrow> real" where
  "calculate_waiting_traffic obs tls_id p =
     (case waiting_vehicles obs of
        None \<Rightarrow> 0
      | Some wv \<Rightarrow>
          (case wv tls_id of
             None \<Rightarrow> 0
           | Some m \<Rightarrow> (case m p of None \<Rightarrow> 0 | Some w \<Rightarrow> w)))"

definition estimate_phase_capacity :: "observation \<Rightarrow> string \<Rightarrow> int \<Rightarrow> real" where
  "estimate_phase_capacity obs tls_id p =
     max 10 (100 + calculate_waiting_traffic obs tls_id p * 1.5)"

definition calculate_phase_efficiency :: "observation \<Rightarrow> string \<Rightarrow> int \<Rightarrow> real" where
  "calculate_phase_efficiency obs tls_id p =
     (let waiting = calculate_waiting_traffic obs tls_id p;
          capacity = estimate_phase_capacity obs tls_id p
      in if waiting \<le> 0 then 0 else waiting * capacity)"

text \<open>
  \<^verbatim>\<open>scores.sort(key=lambda x: x[1], reverse=True)\<close>: Python's sort is stable, also
  with \<^verbatim>\<open>reverse=True\<close> (entries with equal keys keep their order). A stable sort is
  determined by its input, so the stable insertion sort on the negated key computes
  the same list.
\<close>

definition py_sort_desc :: "(int \<times> real) list \<Rightarrow> (int \<times> real) list" where
  "py_sort_desc scores = sort_key (\<lambda>x. - snd x) scores"

definition get_phase_priority :: "controller \<Rightarrow> observation \<Rightarrow> string \<Rightarrow> error + (int \<times> real) list" where
  "get_phase_priority c obs tls_id =
     (case green_phases c tls_id of
        None \<Rightarrow> Inl (KeyError tls_id)
      | Some phases \<Rightarrow>
          Inr (py_sort_desc (map (\<lambda>p. (p, calculate_phase_efficiency obs tls_id p)) phases)))"

subsection \<open>The decision\<close>

text \<open>
  Step 2 of \<^verbatim>\<open>decide_next_phase\<close>: the loop that subtracts the switch penalty from
  every phase but the current one. \<^verbatim>\<open>120.0 / (time_in_phase + 1.0)\<close> raises
  \<^verbatim>\<open>ZeroDivisionError\<close> when the divisor is zero.
\<close>

fun add_switch_penalty :: "int option \<Rightarrow> real \<Rightarrow> (int \<times> real) list \<Rightarrow> error + (int \<times> real) list" where
  "add_switch_penalty cur tip [] = Inr []"
| "add_switch_penalty cur tip ((p, eff) # rest) =
     (if Some p \<noteq> cur then
        (if tip + 1 = 0 then Inl ZeroDivisionError
         else (case add_switch_penalty cur tip rest of
                 Inl e \<Rightarrow> Inl e
               | Inr ps \<Rightarrow> Inr ((p, eff - 120 / (tip + 1)) # ps)))
      else (case add_switch_penalty cur tip rest of
              Inl e \<Rightarrow> Inl e
            | Inr ps \<Rightarrow> Inr ((p, eff) # ps)))"

text \<open>
  \<^verbatim>\<open>next((s for p, s in raw_priorities if p == current_phase), 0)\<close>
\<close>

definition current_eff_of :: "int \<Rightarrow> (int \<times> real) list \<Rightarrow> real" where
  "current_eff_of cp raw =
     (case find (\<lambda>x. fst x = cp) raw of None \<Rightarrow> 0 | Some x \<Rightarrow> snd x)"

text \<open>
  Steps 1 to 3: the phase chosen for one intersection. \<^verbatim>\<open>priorities[0]\<close> raises
  \<^verbatim>\<open>IndexError\<close> on an empty list.
\<close>

definition select_phase :: "controller \<Rightarrow> observation \<Rightarrow> string \<Rightarrow> light_info \<Rightarrow> error + int" where
  "select_phase c obs tls_id li =
     (let cur = current_phase li;
          tip = (case time_in_phase li of None \<Rightarrow> 0 | Some t \<Rightarrow> t)
      in case get_phase_priority c obs tls_id of
           Inl e \<Rightarrow> Inl e
         | Inr raw_priorities \<Rightarrow>
            (case add_switch_penalty cur tip raw_priorities of
               Inl e \<Rightarrow> Inl e
             | Inr adjusted \<Rightarrow>
                (case py_sort_desc adjusted of
                   [] \<Rightarrow> Inl IndexError
                 | (best_phase, _) # _ \<Rightarrow>
                    (case cur of
                       None \<Rightarrow> Inr best_phase
                     | Some cp \<Rightarrow>
                        (case raw_priorities of
                           [] \<Rightarrow> Inl IndexError
                         | (_, best_eff) # _ \<Rightarrow>
                            (if current_eff_of cp raw_priorities \<ge> 0.85 * best_eff
                             then Inr cp else Inr best_phase))))))"

text \<open>
  \<^verbatim>\<open>float(f"{duration:.1f}")\<close>: the nearest multiple of one tenth, a tie going to the
  even digit.
\<close>

definition round_1f :: "real \<Rightarrow> real" where
  "round_1f x =
     (let y = x * 10; f = \<lfloor>y\<rfloor>; r = y - of_int f
      in (if r < 1 / 2 then of_int f
          else if 1 / 2 < r then of_int (f + 1)
          else if even f then of_int f else of_int (f + 1)) / 10)"

text \<open>
  Step 4: the duration of the chosen phase. The capacity is at least 10, so
  \<^verbatim>\<open>capacity ** 0.5\<close> is the real square root.
\<close>

definition phase_duration :: "controller \<Rightarrow> observation \<Rightarrow> string \<Rightarrow> light_info \<Rightarrow> int \<Rightarrow> real" where
  "phase_duration c obs tls_id li best_phase =
     (let tip = (case time_in_phase li of None \<Rightarrow> 0 | Some t \<Rightarrow> t);
          waiting = calculate_waiting_traffic obs tls_id best_phase;
          capacity = estimate_phase_capacity obs tls_id best_phase;
          d = min_green_duration c + 0.27 * waiting + 0.17 * sqrt capacity;
          d = max (min_green_duration c) (min (max_green_duration c) d);
          d = (if tip > 60 then d * 0.9 else d)
      in round_1f d)"

text \<open>Steps 1 to 4 and 6: the action for one intersection.\<close>

definition decide_one :: "controller \<Rightarrow> observation \<Rightarrow> string \<Rightarrow> light_info \<Rightarrow> error + action" where
  "decide_one c obs tls_id li =
     (case select_phase c obs tls_id li of
        Inl e \<Rightarrow> Inl e
      | Inr best_phase \<Rightarrow>
          Inr \<lparr>phase_id = best_phase, duration = phase_duration c obs tls_id li best_phase\<rparr>)"

text \<open>
  Step 5:
  \<^verbatim>\<open>self.last_phase_actions[tls_id][best_phase] = self.last_phase_actions[tls_id].get(best_phase, 0) + 1\<close>
\<close>

definition record_action :: "controller \<Rightarrow> string \<Rightarrow> int \<Rightarrow> error + controller" where
  "record_action c tls_id best_phase =
     (case last_phase_actions c tls_id of
        None \<Rightarrow> Inl (KeyError tls_id)
      | Some m \<Rightarrow>
          Inr (c\<lparr>last_phase_actions :=
                   (last_phase_actions c)
                     (tls_id \<mapsto> m(best_phase \<mapsto> (case m best_phase of None \<Rightarrow> 0 | Some n \<Rightarrow> n) + 1))\<rparr>))"

text \<open>\<^verbatim>\<open>observation.get("lights", {}).get(tls_id)\<close>\<close>

definition light_info_of :: "observation \<Rightarrow> string \<Rightarrow> light_entry option" where
  "light_info_of obs tls_id =
     (case lights obs of None \<Rightarrow> None | Some ls \<Rightarrow> ls tls_id)"

text \<open>The loop \<^verbatim>\<open>for tls_id in self.tls_ids\<close>, threading the controller and the decision.\<close>

fun decide_loop :: "observation \<Rightarrow> string list \<Rightarrow> controller \<Rightarrow> decision \<Rightarrow> error + (controller \<times> decision)" where
  "decide_loop obs [] c dec = Inr (c, dec)"
| "decide_loop obs (tls_id # rest) c dec =
     (case light_info_of obs tls_id of
        None \<Rightarrow> decide_loop obs rest c dec
      | Some Falsy \<Rightarrow> decide_loop obs rest c dec
      | Some (Info li) \<Rightarrow>
          (if (case time_to_next_switch li of None \<Rightarrow> 0 | Some t \<Rightarrow> t) > 0.5
           then decide_loop obs rest c dec
           else (case decide_one c obs tls_id li of
                   Inl e \<Rightarrow> Inl e
                 | Inr a \<Rightarrow>
                    (case record_action c tls_id (phase_id a) of
                       Inl e \<Rightarrow> Inl e
                     | Inr c' \<Rightarrow> decide_loop obs rest c' (AList.update tls_id a dec)))))"

text \<open>\<^verbatim>\<open>return decision or None\<close>\<close>

definition decide_next_phase :: "controller \<Rightarrow> observation \<Rightarrow> error + (controller \<times> decision option)" where
  "decide_next_phase c obs =
     (case decide_loop obs (tls_ids c) c [] of
        Inl e \<Rightarrow> Inl e
      | Inr (c', dec) \<Rightarrow> Inr (c', if dec = [] then None else Some dec))"

subsection \<open>Notions used to state the properties\<close>

text \<open>
  What \<^verbatim>\<open>__init__\<close> establishes and every call keeps: each intersection of
  \<open>tls_ids\<close> has a non-empty list of green phases and a counter dict, and the
  duration bounds are 7 and 70.
\<close>

definition tls_ok :: "controller \<Rightarrow> string \<Rightarrow> bool" where
  "tls_ok c t =
     ((case green_phases c t of None \<Rightarrow> False | Some g \<Rightarrow> g \<noteq> []) \<and>
      last_phase_actions c t \<noteq> None)"

definition controller_inv :: "controller \<Rightarrow> bool" where
  "controller_inv c =
     (list_all (tls_ok c) (tls_ids c) \<and>
      min_green_duration c = 7 \<and> max_green_duration c = 70)"

text \<open>
  The intersections the loop acts on: a true entry in the lights map whose
  \<^verbatim>\<open>time_to_next_switch\<close> (0.0 when the key is missing) is at most 0.5.
\<close>

definition eligible :: "observation \<Rightarrow> string \<Rightarrow> light_info option" where
  "eligible obs tls_id =
     (case light_info_of obs tls_id of
        Some (Info li) \<Rightarrow>
          (if (case time_to_next_switch li of None \<Rightarrow> 0 | Some t \<Rightarrow> t) > 0.5 then None else Some li)
      | _ \<Rightarrow> None)"

text \<open>\<^verbatim>\<open>light_info.get("time_in_phase", 0.0)\<close>\<close>

definition tip_of :: "light_info \<Rightarrow> real" where
  "tip_of li = (case time_in_phase li of None \<Rightarrow> 0 | Some t \<Rightarrow> t)"

text \<open>
  No eligible intersection makes the divisor \<^verbatim>\<open>time_in_phase + 1.0\<close> zero (the
  observation's times are non-negative).
\<close>

definition tips_ok :: "controller \<Rightarrow> observation \<Rightarrow> bool" where
  "tips_ok c obs =
     list_all (\<lambda>t. case eligible obs t of None \<Rightarrow> True | Some li \<Rightarrow> tip_of li + 1 \<noteq> 0) (tls_ids c)"

text \<open>A run of ticks: the calls made on the controller so far, the decisions dropped.\<close>

fun run :: "controller \<Rightarrow> observation list \<Rightarrow> error + controller" where
  "run c [] = Inr c"
| "run c (obs # rest) =
     (case decide_next_phase c obs of Inl e \<Rightarrow> Inl e | Inr (c', r) \<Rightarrow> run c' rest)"

text \<open>One counter: \<^verbatim>\<open>self.last_phase_actions[tls_id][p]\<close>, \<open>None\<close> when a key is missing.\<close>

definition counter_entry :: "controller \<Rightarrow> string \<Rightarrow> int \<Rightarrow> int option" where
  "counter_entry c tls_id p =
     (case last_phase_actions c tls_id of None \<Rightarrow> None | Some m \<Rightarrow> m p)"

text \<open>The phase a decision selects for an intersection, if any.\<close>

definition selected :: "decision option \<Rightarrow> string \<Rightarrow> int option" where
  "selected r tls_id =
     (case r of
        None \<Rightarrow> None
      | Some dec \<Rightarrow> (case map_of dec tls_id of None \<Rightarrow> None | Some a \<Rightarrow> Some (phase_id a)))"

text \<open>The decision part of a call's outcome (or the exception raised).\<close>

definition decision_of :: "error + (controller \<times> decision option) \<Rightarrow> error + decision option" where
  "decision_of res = (case res of Inl e \<Rightarrow> Inl e | Inr (c', r) \<Rightarrow> Inr r)"

subsection \<open>Concrete scenarios\<close>

text \<open>
  A catalog with two green phases (0 and 2) and a yellow phase between them, and the
  controller \<^verbatim>\<open>__init__\<close> builds from it for the single intersection \<open>A\<close>.
\<close>

definition catalog_A :: "string \<Rightarrow> phase list" where
  "catalog_A t =
     [\<lparr>index = 0, state = ''GGrr''\<rparr>, \<lparr>index = 1, state = ''yyrr''\<rparr>,
      \<lparr>index = 2, state = ''rrGG''\<rparr>, \<lparr>index = 3, state = ''rryy''\<rparr>]"

definition controller_A :: controller where
  "controller_A =
     \<lparr>tls_ids = [''A''], min_green_duration = 7, max_green_duration = 70,
      green_phases = [''A'' \<mapsto> [0, 2]], cursor = [''A'' \<mapsto> 0],
      last_phase_actions = [''A'' \<mapsto> Map.empty]\<rparr>"

text \<open>An observation of intersection \<open>A\<close> alone.\<close>

definition obs_A :: "light_info \<Rightarrow> (int \<rightharpoonup> real) \<Rightarrow> observation" where
  "obs_A li waiting =
     \<lparr>lights = Some [''A'' \<mapsto> Info li], waiting_vehicles = Some [''A'' \<mapsto> waiting]\<rparr>"

text \<open>
  Nothing waits anywhere, and the light reports the yellow phase 1 as current.
\<close>

definition li_yellow :: light_info where
  "li_yellow = \<lparr>time_to_next_switch = Some 0, current_phase = Some 1, time_in_phase = Some 10\<rparr>"

definition obs_yellow :: observation where
  "obs_yellow = obs_A li_yellow Map.empty"

text \<open>
  The end-to-end scenario of the specification: phase 0 current for 10 seconds, 5
  vehicles wait on phase 0 and 50 on phase 2.
\<close>

definition li_scenario :: light_info where
  "li_scenario = \<lparr>time_to_next_switch = Some 0, current_phase = Some 0, time_in_phase = Some 10\<rparr>"

definition obs_scenario :: observation where
  "obs_scenario = obs_A li_scenario [0 \<mapsto> 5, 2 \<mapsto> 50]"





text \<open>A phase that has run for more than 60 seconds, nothing waiting.\<close>

definition li_long :: light_info where
  "li_long = \<lparr>time_to_next_switch = Some 0, current_phase = Some 0, time_in_phase = Some 61\<rparr>"

definition obs_long :: observation where
  "obs_long = obs_A li_long Map.empty"

text \<open>Two intersections, \<open>A\<close> due to switch in 0.5 seconds and \<open>B\<close> in 0.51.\<close>

definition controller_AB :: controller where
  "controller_AB =
     \<lparr>tls_ids = [''A'', ''B''], min_green_duration = 7, max_green_duration = 70,
      green_phases = [''A'' \<mapsto> [0, 2], ''B'' \<mapsto> [0, 2]], cursor = [''A'' \<mapsto> 0, ''B'' \<mapsto> 0],
      last_phase_actions = [''A'' \<mapsto> Map.empty, ''B'' \<mapsto> Map.empty]\<rparr>"

definition obs_due :: observation where
  "obs_due =
     \<lparr>lights = Some [''A'' \<mapsto> Info \<lparr>time_to_next_switch = Some 0.5, current_phase = Some 0,
                                       time_in_phase = Some 10\<rparr>,
                      ''B'' \<mapsto> Info \<lparr>time_to_next_switch = Some 0.51, current_phase = Some 0,
                                       time_in_phase = Some 10\<rparr>],
      waiting_vehicles = None\<rparr>"

text \<open>Intersection \<open>A\<close> alone, due to switch in 0.51 seconds.\<close>

definition obs_idle :: observation where
  "obs_idle =
     obs_A \<lparr>time_to_next_switch = Some 0.51, current_phase = Some 0, time_in_phase = Some 10\<rparr>
       Map.empty"

text \<open>An entry that is false for \<open>A\<close>, and an observation without the lights key.\<close>

definition obs_falsy :: observation where
  "obs_falsy = \<lparr>lights = Some [''A'' \<mapsto> Falsy], waiting_vehicles = None\<rparr>"

definition obs_no_lights :: observation where
  "obs_no_lights = \<lparr>lights = None, waiting_vehicles = None\<rparr>"

text \<open>A catalog whose intersection \<open>B\<close> has no green phase.\<close>

definition catalog_bad :: "string \<Rightarrow> phase list" where
  "catalog_bad t =
     (if t = ''B'' then [\<lparr>index = 0, state = ''yyrr''\<rparr>, \<lparr>index = 1, state = ''rrrr''\<rparr>]
      else catalog_A t)"

text \<open>Two controllers agree on everything but the counters.\<close>

definition same_static :: "controller \<Rightarrow> controller \<Rightarrow> bool" where
  "same_static c c' =
     (tls_ids c' = tls_ids c \<and> min_green_duration c' = min_green_duration c \<and>
      max_green_duration c' = max_green_duration c \<and> green_phases c' = green_phases c \<and>
      cursor c' = cursor c)"

section \<open>Properties\<close>

subsection \<open>Evaluation on the scenarios\<close>

lemma init_A: "init [''A''] catalog_A = Inr controller_A"
  by (simp add: init_def catalog_A_def greens_of_def is_green_def controller_A_def)

lemma sqrt_100: "sqrt 100 = 10"
  by (rule real_sqrt_unique) simp_all

lemma tls_ids_A: "tls_ids controller_A = [''A'']"
  by (simp add: controller_A_def)

lemma green_phases_A: "green_phases controller_A ''A'' = Some [0, 2]"
  by (simp add: controller_A_def)

lemma light_info_of_A: "light_info_of (obs_A li w) ''A'' = Some (Info li)"
  by (simp add: light_info_of_def obs_A_def)

lemma waiting_A: "calculate_waiting_traffic (obs_A li w) ''A'' p = (case w p of None \<Rightarrow> 0 | Some x \<Rightarrow> x)"
  by (simp add: calculate_waiting_traffic_def obs_A_def)

lemma record_action_A:
  "record_action controller_A ''A'' p = Inr (controller_A\<lparr>last_phase_actions := [''A'' \<mapsto> [p \<mapsto> 1]]\<rparr>)"
  by (simp add: record_action_def controller_A_def)

lemma decide_A:
  assumes "time_to_next_switch li = Some 0" "select_phase controller_A (obs_A li w) ''A'' li = Inr p"
    "phase_duration controller_A (obs_A li w) ''A'' li p = d"
  shows "decide_next_phase controller_A (obs_A li w) =
     Inr (controller_A\<lparr>last_phase_actions := [''A'' \<mapsto> [p \<mapsto> 1]]\<rparr>,
          Some [(''A'', \<lparr>phase_id = p, duration = d\<rparr>)])"
  by (simp add: decide_next_phase_def tls_ids_A light_info_of_A decide_one_def assms record_action_A)

lemma select_yellow: "select_phase controller_A obs_yellow ''A'' li_yellow = Inr 1"
  by (simp add: select_phase_def get_phase_priority_def green_phases_A obs_yellow_def waiting_A
      li_yellow_def py_sort_desc_def calculate_phase_efficiency_def current_eff_of_def)

lemma duration_yellow: "phase_duration controller_A obs_yellow ''A'' li_yellow 1 = 8.7"
  by (simp add: phase_duration_def controller_A_def obs_yellow_def waiting_A li_yellow_def
      estimate_phase_capacity_def sqrt_100 round_1f_def Let_def)

text \<open>
  C1 (the code departs from it). The claim: when the reported current phase is not a
  green phase of the intersection, the stay-on-phase rule never overrides the ranked
  selection, so every emitted phase is a green phase, also when every raw efficiency is
  0. Here the controller is the one \<open>init\<close> builds, its green phases are 0 and 2, the
  light reports phase 1 and nothing waits: the default efficiency 0 of the unknown
  phase passes the test \<open>0 \<ge> 0.85 * 0\<close>, and the call emits phase 1.
\<close>

theorem stay_rule_emits_non_green_phase:
  "init [''A''] catalog_A = Inr controller_A \<and>
   green_phases controller_A ''A'' = Some [0, 2] \<and>
   current_phase li_yellow = Some 1 \<and>
   decide_next_phase controller_A obs_yellow =
     Inr (controller_A\<lparr>last_phase_actions := [''A'' \<mapsto> [1 \<mapsto> 1]]\<rparr>,
          Some [(''A'', \<lparr>phase_id = 1, duration = 8.7\<rparr>)])"
proof -
  have "time_to_next_switch li_yellow = Some 0" "current_phase li_yellow = Some 1"
    by (simp_all add: li_yellow_def)
  then show ?thesis
    using decide_A[of li_yellow Map.empty 1 "8.7"] select_yellow duration_yellow init_A green_phases_A
    by (simp add: obs_yellow_def)
qed

subsection \<open>The loop over the intersections\<close>

lemma decide_loop_Cons:
  "decide_loop obs (t # ts) c dec =
     (case eligible obs t of
        None \<Rightarrow> decide_loop obs ts c dec
      | Some li \<Rightarrow>
         (case decide_one c obs t li of
            Inl e \<Rightarrow> Inl e
          | Inr a \<Rightarrow>
             (case record_action c t (phase_id a) of
                Inl e \<Rightarrow> Inl e
              | Inr c' \<Rightarrow> decide_loop obs ts c' (AList.update t a dec))))"
  by (simp add: eligible_def split: option.splits light_entry.splits)

lemma decide_loop_skip:
  "eligible obs t = None \<Longrightarrow> decide_loop obs (t # ts) c dec = decide_loop obs ts c dec"
  by (simp only: decide_loop_Cons option.case)

lemma decide_loop_act:
  assumes "eligible obs t = Some li" "decide_loop obs (t # ts) c dec = Inr (c', dec')"
  obtains a c1 where "decide_one c obs t li = Inr a" "record_action c t (phase_id a) = Inr c1"
    "decide_loop obs ts c1 (AList.update t a dec) = Inr (c', dec')"
proof -
  from assms(2) have "(case decide_one c obs t li of
            Inl e \<Rightarrow> Inl e
          | Inr a \<Rightarrow>
             (case record_action c t (phase_id a) of
                Inl e \<Rightarrow> Inl e
              | Inr c' \<Rightarrow> decide_loop obs ts c' (AList.update t a dec))) = Inr (c', dec')"
    by (simp only: decide_loop_Cons assms(1) option.case)
  then show thesis
    using that by (auto split: sum.splits)
qed

lemma record_action_static: "record_action c t p = Inr c' \<Longrightarrow> same_static c c'"
  by (auto simp: record_action_def same_static_def split: option.splits)

lemma same_static_refl: "same_static c c"
  by (simp add: same_static_def)

lemma same_static_trans: "same_static a b \<Longrightarrow> same_static b c \<Longrightarrow> same_static a c"
  by (simp add: same_static_def)

lemma select_phase_static:
  assumes "green_phases c' = green_phases c"
  shows "select_phase c' obs t li = select_phase c obs t li"
  unfolding select_phase_def get_phase_priority_def assms by (rule refl)

lemma phase_duration_static:
  assumes "min_green_duration c' = min_green_duration c" "max_green_duration c' = max_green_duration c"
  shows "phase_duration c' obs t li p = phase_duration c obs t li p"
  unfolding phase_duration_def assms by (rule refl)

lemma decide_one_static:
  assumes "same_static c c'"
  shows "decide_one c' obs t li = decide_one c obs t li"
proof -
  from assms have g: "green_phases c' = green_phases c"
    and m: "min_green_duration c' = min_green_duration c"
    and x: "max_green_duration c' = max_green_duration c"
    by (simp_all add: same_static_def)
  show ?thesis
    unfolding decide_one_def select_phase_static[OF g] phase_duration_static[OF m x] by (rule refl)
qed

lemma decide_loop_static:
  "decide_loop obs ts c dec = Inr (c', dec') \<Longrightarrow> same_static c c'"
proof (induction ts arbitrary: c dec)
  case Nil
  then show ?case by (simp add: same_static_def)
next
  case (Cons t ts)
  show ?case
  proof (cases "eligible obs t")
    case None
    with Cons show ?thesis by (simp only: decide_loop_skip)
  next
    case (Some li)
    from decide_loop_act[OF Some Cons.prems] obtain a c1 where
      r: "record_action c t (phase_id a) = Inr c1"
      and l: "decide_loop obs ts c1 (AList.update t a dec) = Inr (c', dec')"
      by blast
    from record_action_static[OF r] Cons.IH[OF l] show ?thesis
      by (rule same_static_trans)
  qed
qed

text \<open>The entries of the decision: one per eligible intersection of the list.\<close>

lemma decide_loop_other:
  "decide_loop obs ts c dec = Inr (c', dec') \<Longrightarrow> t \<notin> set ts \<or> eligible obs t = None \<Longrightarrow>
   map_of dec' t = map_of dec t"
proof (induction ts arbitrary: c dec)
  case Nil
  then show ?case by simp
next
  case (Cons u ts)
  from Cons.prems(2) have rest: "t \<notin> set ts \<or> eligible obs t = None" by auto
  show ?case
  proof (cases "eligible obs u")
    case None
    with Cons.prems(1) have "decide_loop obs ts c dec = Inr (c', dec')"
      by (simp only: decide_loop_skip)
    from Cons.IH[OF this rest] show ?thesis .
  next
    case (Some lu)
    with Cons.prems(2) have ne: "t \<noteq> u" by auto
    from decide_loop_act[OF Some Cons.prems(1)] obtain a c1 where
      l: "decide_loop obs ts c1 (AList.update u a dec) = Inr (c', dec')"
      by blast
    from Cons.IH[OF l rest] ne show ?thesis by (simp add: update_conv')
  qed
qed

lemma decide_loop_entry:
  "decide_loop obs ts c dec = Inr (c', dec') \<Longrightarrow> t \<in> set ts \<Longrightarrow> eligible obs t = Some li \<Longrightarrow>
   \<exists>a. decide_one c obs t li = Inr a \<and> map_of dec' t = Some a"
proof (induction ts arbitrary: c dec)
  case Nil
  then show ?case by simp
next
  case (Cons u ts)
  show ?case
  proof (cases "eligible obs u")
    case None
    with Cons.prems have ne: "u \<noteq> t" by auto
    from None Cons.prems(1) have l: "decide_loop obs ts c dec = Inr (c', dec')"
      by (simp only: decide_loop_skip)
    from ne Cons.prems(2) have "t \<in> set ts" by simp
    from Cons.IH[OF l this Cons.prems(3)] show ?thesis .
  next
    case (Some lu)
    from decide_loop_act[OF Some Cons.prems(1)] obtain a c1 where
      d: "decide_one c obs u lu = Inr a"
      and r: "record_action c u (phase_id a) = Inr c1"
      and l: "decide_loop obs ts c1 (AList.update u a dec) = Inr (c', dec')"
      by blast
    have s: "decide_one c1 obs t li = decide_one c obs t li"
      by (rule decide_one_static[OF record_action_static[OF r]])
    show ?thesis
    proof (cases "t \<in> set ts")
      case True
      from Cons.IH[OF l True Cons.prems(3)] s show ?thesis by simp
    next
      case False
      with Cons.prems(2) have tu: "t = u" by simp
      with Some Cons.prems(3) have "lu = li" by simp
      moreover from decide_loop_other[OF l, of t] False tu
      have "map_of dec' u = Some a" by (simp add: update_conv')
      ultimately show ?thesis using d tu by simp
    qed
  qed
qed

lemma decide_loop_keys:
  assumes "decide_loop obs ts c [] = Inr (c', dec')"
  shows "fst ` set dec' = {t \<in> set ts. eligible obs t \<noteq> None}"
proof -
  have "t \<in> fst ` set dec' \<longleftrightarrow> t \<in> set ts \<and> eligible obs t \<noteq> None" for t
  proof (cases "t \<in> set ts \<and> eligible obs t \<noteq> None")
    case True
    then obtain li where "t \<in> set ts" "eligible obs t = Some li" by auto
    from decide_loop_entry[OF assms this] have "map_of dec' t \<noteq> None" by auto
    then have "t \<in> dom (map_of dec')" by blast
    with True show ?thesis by (simp add: dom_map_of_conv_image_fst)
  next
    case False
    then have "t \<notin> set ts \<or> eligible obs t = None" by blast
    from decide_loop_other[OF assms this] have "t \<notin> dom (map_of dec')" by (simp add: domIff)
    with False show ?thesis by (simp add: dom_map_of_conv_image_fst)
  qed
  then show ?thesis by blast
qed

lemma decide_loop_distinct:
  "decide_loop obs ts c dec = Inr (c', dec') \<Longrightarrow> distinct (map fst dec) \<Longrightarrow> distinct (map fst dec')"
proof (induction ts arbitrary: c dec)
  case Nil
  then show ?case by simp
next
  case (Cons u ts)
  show ?case
  proof (cases "eligible obs u")
    case None
    with Cons.prems(1) have "decide_loop obs ts c dec = Inr (c', dec')"
      by (simp only: decide_loop_skip)
    from Cons.IH[OF this Cons.prems(2)] show ?thesis .
  next
    case (Some lu)
    from decide_loop_act[OF Some Cons.prems(1)] obtain a c1 where
      l: "decide_loop obs ts c1 (AList.update u a dec) = Inr (c', dec')"
      by blast
    from Cons.IH[OF l distinct_update[OF Cons.prems(2)]] show ?thesis .
  qed
qed

subsection \<open>The ranking\<close>

lemma set_py_sort_desc: "set (py_sort_desc xs) = set xs"
  by (simp add: py_sort_desc_def)

lemma py_sort_desc_Nil: "py_sort_desc xs = [] \<longleftrightarrow> xs = []"
  by (metis set_py_sort_desc set_empty)

lemma py_sort_desc_head_max:
  assumes "py_sort_desc xs = x # rest" "y \<in> set xs"
  shows "snd y \<le> snd x"
proof -
  have "sorted (map (\<lambda>x. - snd x) (py_sort_desc xs))"
    by (simp add: py_sort_desc_def)
  with assms(1) have "\<forall>z \<in> set rest. - snd x \<le> - snd z"
    by simp
  moreover from assms have "y = x \<or> y \<in> set rest"
    by (metis set_py_sort_desc set_ConsD)
  ultimately show ?thesis by auto
qed



lemma add_switch_penalty_eq:
  "tip + 1 \<noteq> 0 \<Longrightarrow>
   add_switch_penalty cur tip raw =
     Inr (map (\<lambda>x. (fst x, if Some (fst x) \<noteq> cur then snd x - 120 / (tip + 1) else snd x)) raw)"
  by (induction raw) auto

lemma add_switch_penalty_fst:
  "add_switch_penalty cur tip raw = Inr adj \<Longrightarrow> map fst adj = map fst raw"
  by (induction raw arbitrary: adj) (auto split: if_splits sum.splits)



lemma current_eff_of_absent:
  assumes "cp \<notin> set g"
  shows "current_eff_of cp (py_sort_desc (map (\<lambda>p. (p, f p)) g)) = 0"
proof -
  have "find (\<lambda>x. fst x = cp) (py_sort_desc (map (\<lambda>p. (p, f p)) g)) = None"
    using assms by (auto simp: find_None_iff set_py_sort_desc)
  then show ?thesis by (simp add: current_eff_of_def)
qed

text \<open>The shape of a successful selection, with the ranking named.\<close>

lemma select_phase_cases:
  assumes g: "green_phases c t = Some g"
    and s: "select_phase c obs t li = Inr p"
  obtains adj bp s0 rest b0 e0 raw_rest where
    "add_switch_penalty (current_phase li) (tip_of li)
       (py_sort_desc (map (\<lambda>p. (p, calculate_phase_efficiency obs t p)) g)) = Inr adj"
    "py_sort_desc adj = (bp, s0) # rest"
    "py_sort_desc (map (\<lambda>p. (p, calculate_phase_efficiency obs t p)) g) = (b0, e0) # raw_rest"
    "p = (case current_phase li of
            None \<Rightarrow> bp
          | Some cp \<Rightarrow>
              if current_eff_of cp (py_sort_desc (map (\<lambda>p. (p, calculate_phase_efficiency obs t p)) g))
                   \<ge> 0.85 * e0 then cp else bp)"
proof -
  let ?raw = "py_sort_desc (map (\<lambda>p. (p, calculate_phase_efficiency obs t p)) g)"
  from s g obtain adj where a: "add_switch_penalty (current_phase li) (tip_of li) ?raw = Inr adj"
    by (auto simp: select_phase_def get_phase_priority_def tip_of_def Let_def split: sum.splits)
  from s g a obtain bp s0 rest where b: "py_sort_desc adj = (bp, s0) # rest"
    by (auto simp: select_phase_def get_phase_priority_def tip_of_def Let_def split: sum.splits list.splits)
  from add_switch_penalty_fst[OF a] b have "?raw \<noteq> []"
    by (metis py_sort_desc_Nil list.distinct(1) map_is_Nil_conv)
  then obtain b0 e0 raw_rest where r: "?raw = (b0, e0) # raw_rest"
    by (cases ?raw) auto
  from s g a b r have "p = (case current_phase li of
            None \<Rightarrow> bp
          | Some cp \<Rightarrow> if current_eff_of cp ?raw \<ge> 0.85 * e0 then cp else bp)"
    by (auto simp: select_phase_def get_phase_priority_def tip_of_def Let_def split: option.splits if_splits)
  with a b r show thesis by (rule that)
qed

subsection \<open>The selection\<close>

lemma capacity_ge_10: "10 \<le> estimate_phase_capacity obs t p"
  by (simp add: estimate_phase_capacity_def)

lemma efficiency_nonneg: "0 \<le> calculate_phase_efficiency obs t p"
proof -
  have "0 \<le> estimate_phase_capacity obs t p"
    using capacity_ge_10[of obs t p] by linarith
  then show ?thesis
    by (simp add: calculate_phase_efficiency_def Let_def)
qed

lemma select_phase_unfold:
  assumes "get_phase_priority c obs t = Inr raw"
    and "add_switch_penalty (current_phase li) (case time_in_phase li of None \<Rightarrow> 0 | Some t \<Rightarrow> t) raw = Inr adj"
    and "py_sort_desc adj = (bp, s0) # rest"
  shows "select_phase c obs t li =
     (case current_phase li of
        None \<Rightarrow> Inr bp
      | Some cp \<Rightarrow>
          (case raw of
             [] \<Rightarrow> Inl IndexError
           | (_, best_eff) # _ \<Rightarrow>
               if current_eff_of cp raw \<ge> 0.85 * best_eff then Inr cp else Inr bp))"
  unfolding select_phase_def Let_def assms sum.case list.case prod.case by (rule refl)

lemma select_phase_total:
  assumes "green_phases c t = Some g" "g \<noteq> []" "tip_of li + 1 \<noteq> 0"
  shows "\<exists>p. select_phase c obs t li = Inr p"
proof -
  define raw where "raw = py_sort_desc (map (\<lambda>p. (p, calculate_phase_efficiency obs t p)) g)"
  define adj where "adj = map (\<lambda>x. (fst x, if Some (fst x) \<noteq> current_phase li then snd x - 120 / (tip_of li + 1) else snd x)) raw"
  have a: "add_switch_penalty (current_phase li) (tip_of li) raw = Inr adj"
    unfolding adj_def by (rule add_switch_penalty_eq[OF assms(3)])
  from assms(2) have r: "raw \<noteq> []" by (simp add: raw_def py_sort_desc_Nil)
  then have "py_sort_desc adj \<noteq> []" by (simp add: adj_def py_sort_desc_Nil)
  then obtain bp s0 rest where b: "py_sort_desc adj = (bp, s0) # rest"
    by (cases "py_sort_desc adj") auto
  from r obtain b0 e0 raw_rest where r': "raw = (b0, e0) # raw_rest"
    by (cases raw) auto
  have g: "get_phase_priority c obs t = Inr raw"
    by (simp add: get_phase_priority_def assms(1) raw_def)
  have a': "add_switch_penalty (current_phase li) (case time_in_phase li of None \<Rightarrow> 0 | Some t \<Rightarrow> t) raw = Inr adj"
    using a by (simp only: tip_of_def)
  have "select_phase c obs t li =
     (case current_phase li of
        None \<Rightarrow> Inr bp
      | Some cp \<Rightarrow> if current_eff_of cp raw \<ge> 0.85 * e0 then Inr cp else Inr bp)"
    unfolding select_phase_unfold[OF g a' b] by (simp add: r' split: option.splits)
  then show ?thesis by (cases "current_phase li") auto
qed

text \<open>
  The phase selected is a green phase, or it is the reported current phase, which the
  stay-on-phase rule put in place of the ranked one.
\<close>

lemma select_phase_green_or_current:
  assumes g: "green_phases c t = Some g" and s: "select_phase c obs t li = Inr p"
  shows "p \<in> set g \<or>
         (current_phase li = Some p \<and> (\<forall>q \<in> set g. calculate_phase_efficiency obs t q = 0))"
proof -
  let ?f = "calculate_phase_efficiency obs t"
  let ?raw = "py_sort_desc (map (\<lambda>p. (p, ?f p)) g)"
  from select_phase_cases[OF g s] obtain adj bp s0 rest b0 e0 raw_rest where
    a: "add_switch_penalty (current_phase li) (tip_of li) ?raw = Inr adj"
    and b: "py_sort_desc adj = (bp, s0) # rest"
    and r: "?raw = (b0, e0) # raw_rest"
    and p: "p = (case current_phase li of None \<Rightarrow> bp
          | Some cp \<Rightarrow> if current_eff_of cp ?raw \<ge> 0.85 * e0 then cp else bp)"
    by blast
  have "bp \<in> fst ` set (py_sort_desc adj)" using b by force
  then have "bp \<in> set (map fst adj)" by (simp add: set_py_sort_desc)
  then have "bp \<in> set (map fst ?raw)" by (simp only: add_switch_penalty_fst[OF a])
  then have bp: "bp \<in> set g" by (auto simp: set_py_sort_desc)
  show ?thesis
  proof (cases "p \<in> set g")
    case True
    then show ?thesis by simp
  next
    case False
    with p bp obtain cp where cp: "current_phase li = Some cp" "p = cp"
      and stay: "current_eff_of cp ?raw \<ge> 0.85 * e0"
      by (auto split: option.splits if_splits)
    from False cp have "current_eff_of cp ?raw = 0"
      by (simp add: current_eff_of_absent)
    with stay have e0: "e0 \<le> 0" by simp
    have "?f q = 0" if "q \<in> set g" for q
    proof -
      from that have "(q, ?f q) \<in> set (map (\<lambda>p. (p, ?f p)) g)" by auto
      from py_sort_desc_head_max[OF r this] have "?f q \<le> e0" by simp
      with e0 efficiency_nonneg[of obs t q] show ?thesis by linarith
    qed
    with cp show ?thesis by blast
  qed
qed



subsection \<open>The whole call\<close>

lemma eligible_iff:
  "eligible obs t = Some li \<longleftrightarrow>
     light_info_of obs t = Some (Info li) \<and>
     (case time_to_next_switch li of None \<Rightarrow> 0 | Some x \<Rightarrow> x) \<le> 0.5"
  by (auto simp: eligible_def split: option.splits light_entry.splits if_splits)

lemma eligible_None_iff:
  "eligible obs t = None \<longleftrightarrow>
     \<not> (\<exists>li. light_info_of obs t = Some (Info li) \<and>
            (case time_to_next_switch li of None \<Rightarrow> 0 | Some x \<Rightarrow> x) \<le> 0.5)"
proof -
  have "eligible obs t = None \<longleftrightarrow> \<not> (\<exists>li. eligible obs t = Some li)"
    by (cases "eligible obs t") auto
  then show ?thesis by (simp only: eligible_iff)
qed

lemma record_action_ok:
  "last_phase_actions c t \<noteq> None \<Longrightarrow> \<exists>c'. record_action c t p = Inr c'"
  by (auto simp: record_action_def)

lemma record_action_tls_ok:
  "record_action c t p = Inr c' \<Longrightarrow> tls_ok c' u = tls_ok c u"
  by (cases "u = t") (auto simp: record_action_def tls_ok_def split: option.splits)

lemma decide_one_total:
  assumes "tls_ok c t" "tip_of li + 1 \<noteq> 0"
  shows "\<exists>a. decide_one c obs t li = Inr a"
proof -
  from assms(1) obtain g where "green_phases c t = Some g" "g \<noteq> []"
    by (auto simp: tls_ok_def split: option.splits)
  from select_phase_total[OF this assms(2)] obtain p where "select_phase c obs t li = Inr p"
    by blast
  then show ?thesis by (simp add: decide_one_def)
qed

lemma decide_loop_total:
  "list_all (tls_ok c) ts \<Longrightarrow>
   list_all (\<lambda>t. case eligible obs t of None \<Rightarrow> True | Some li \<Rightarrow> tip_of li + 1 \<noteq> 0) ts \<Longrightarrow>
   \<exists>c' dec'. decide_loop obs ts c dec = Inr (c', dec')"
proof (induction ts arbitrary: c dec)
  case Nil
  then show ?case by simp
next
  case (Cons u ts)
  from Cons.prems have ok: "tls_ok c u" and oks: "list_all (tls_ok c) ts"
    and tips: "list_all (\<lambda>t. case eligible obs t of None \<Rightarrow> True | Some li \<Rightarrow> tip_of li + 1 \<noteq> 0) ts"
    by simp_all
  show ?case
  proof (cases "eligible obs u")
    case None
    from Cons.IH[OF oks tips] show ?thesis by (simp only: decide_loop_skip[OF None])
  next
    case (Some lu)
    with Cons.prems(2) have "tip_of lu + 1 \<noteq> 0" by simp
    from decide_one_total[OF ok this] obtain a where a: "decide_one c obs u lu = Inr a" by blast
    from ok have "last_phase_actions c u \<noteq> None" by (simp add: tls_ok_def)
    from record_action_ok[OF this] obtain c1 where r: "record_action c u (phase_id a) = Inr c1"
      by blast
    from oks have "list_all (tls_ok c1) ts"
      by (simp add: record_action_tls_ok[OF r] list_all_iff)
    from Cons.IH[OF this tips] obtain c' dec' where
      "decide_loop obs ts c1 (AList.update u a dec) = Inr (c', dec')" by blast
    then have "decide_loop obs (u # ts) c dec = Inr (c', dec')"
      by (simp only: decide_loop_Cons Some a r option.case sum.case)
    then show ?thesis by blast
  qed
qed

lemma decide_next_phase_total:
  assumes "controller_inv c" "tips_ok c obs"
  shows "\<exists>c' r. decide_next_phase c obs = Inr (c', r)"
proof -
  from assms have "list_all (tls_ok c) (tls_ids c)"
    and "list_all (\<lambda>t. case eligible obs t of None \<Rightarrow> True | Some li \<Rightarrow> tip_of li + 1 \<noteq> 0) (tls_ids c)"
    by (simp_all add: controller_inv_def tips_ok_def)
  from decide_loop_total[OF this] obtain c' dec' where
    "decide_loop obs (tls_ids c) c [] = Inr (c', dec')" by blast
  then show ?thesis by (simp add: decide_next_phase_def)
qed

lemma decide_next_phase_loop:
  assumes "decide_next_phase c obs = Inr (c', r)"
  obtains dec' where "decide_loop obs (tls_ids c) c [] = Inr (c', dec')"
    "r = (if dec' = [] then None else Some dec')"
  using assms by (auto simp: decide_next_phase_def split: sum.splits)

lemma decide_next_phase_static:
  assumes "decide_next_phase c obs = Inr (c', r)"
  shows "same_static c c'"
  using assms decide_loop_static by (auto elim!: decide_next_phase_loop)

lemma decide_loop_tls_ok:
  "decide_loop obs ts c dec = Inr (c', dec') \<Longrightarrow> tls_ok c' u = tls_ok c u"
proof (induction ts arbitrary: c dec)
  case Nil
  then show ?case by simp
next
  case (Cons v ts)
  show ?case
  proof (cases "eligible obs v")
    case None
    with Cons.prems have "decide_loop obs ts c dec = Inr (c', dec')"
      by (simp only: decide_loop_skip)
    from Cons.IH[OF this] show ?thesis .
  next
    case (Some lv)
    from decide_loop_act[OF Some Cons.prems] obtain a c1 where
      r: "record_action c v (phase_id a) = Inr c1"
      and l: "decide_loop obs ts c1 (AList.update v a dec) = Inr (c', dec')"
      by blast
    from Cons.IH[OF l] record_action_tls_ok[OF r] show ?thesis by simp
  qed
qed

lemma decide_next_phase_inv:
  assumes "decide_next_phase c obs = Inr (c', r)" "controller_inv c"
  shows "controller_inv c'"
proof -
  from decide_next_phase_loop[OF assms(1)] obtain dec' where
    l: "decide_loop obs (tls_ids c) c [] = Inr (c', dec')" by blast
  from decide_loop_static[OF l] have s: "same_static c c'" .
  have "tls_ok c' = tls_ok c" using decide_loop_tls_ok[OF l] by blast
  with assms(2) s show ?thesis
    by (simp add: controller_inv_def same_static_def)
qed

text \<open>The selection function of a returned decision.\<close>

lemma selected_of_loop:
  "selected (if dec = [] then None else Some dec) t =
     (case map_of dec t of None \<Rightarrow> None | Some a \<Rightarrow> Some (phase_id a))"
  by (simp add: selected_def)


lemma decide_next_phase_no_entry:
  assumes "decide_next_phase c obs = Inr (c', r)" "t \<notin> set (tls_ids c) \<or> eligible obs t = None"
  shows "selected r t = None"
proof -
  from decide_next_phase_loop[OF assms(1)] obtain dec' where
    l: "decide_loop obs (tls_ids c) c [] = Inr (c', dec')"
    and r: "r = (if dec' = [] then None else Some dec')" by blast
  from decide_loop_other[OF l assms(2)] have "map_of dec' t = None" by simp
  with r show ?thesis by (simp only: selected_of_loop option.case)
qed

subsection \<open>The scenarios satisfy the standing assumptions\<close>

lemma controller_inv_A: "controller_inv controller_A"
  by (simp add: controller_inv_def tls_ok_def controller_A_def)

lemma controller_inv_AB: "controller_inv controller_AB"
  by (simp add: controller_inv_def tls_ok_def controller_AB_def)

lemma eligible_A:
  "eligible (obs_A li w) ''A'' =
     (if (case time_to_next_switch li of None \<Rightarrow> 0 | Some t \<Rightarrow> t) > 0.5 then None else Some li)"
  by (simp add: eligible_def light_info_of_A)

lemma tips_ok_A: "tip_of li + 1 \<noteq> 0 \<Longrightarrow> tips_ok controller_A (obs_A li w)"
  by (simp add: tips_ok_def tls_ids_A eligible_A)

lemma efficiency_A:
  "calculate_phase_efficiency (obs_A li w) ''A'' p =
     (case w p of None \<Rightarrow> 0 | Some x \<Rightarrow> if x \<le> 0 then 0 else x * max 10 (100 + x * 1.5))"
  by (simp add: calculate_phase_efficiency_def estimate_phase_capacity_def waiting_A Let_def
      split: option.splits)

subsection \<open>The stay-on-phase rule and the eligibility test\<close>



text \<open>
  C6. A call on a constructed controller returns when no eligible light has
  \<open>time_in_phase = -1\<close>. Whenever a call returns, the decision holds exactly the
  intersections of the controller that have a true entry in the lights map with
  \<open>time_to_next_switch\<close> (0.0 when the key is missing) at most 0.5, each once; and it
  is the value \<open>None\<close>, never an empty dict, when there is no such intersection.
\<close>

theorem decision_holds_exactly_the_eligible:
  "(controller_inv c \<and> tips_ok c obs \<longrightarrow> (\<exists>c' r. decide_next_phase c obs = Inr (c', r))) \<and>
   (decide_next_phase c obs = Inr (c', r) \<longrightarrow>
      (case r of
         None \<Rightarrow>
           {t \<in> set (tls_ids c). \<exists>li. light_info_of obs t = Some (Info li) \<and>
               (case time_to_next_switch li of None \<Rightarrow> 0 | Some x \<Rightarrow> x) \<le> 0.5} = {}
       | Some dec \<Rightarrow>
           dec \<noteq> [] \<and> distinct (map fst dec) \<and>
           fst ` set dec =
             {t \<in> set (tls_ids c). \<exists>li. light_info_of obs t = Some (Info li) \<and>
               (case time_to_next_switch li of None \<Rightarrow> 0 | Some x \<Rightarrow> x) \<le> 0.5}))"
proof (intro conjI impI)
  assume "controller_inv c \<and> tips_ok c obs"
  then show "\<exists>c' r. decide_next_phase c obs = Inr (c', r)"
    using decide_next_phase_total by blast
next
  let ?E = "{t \<in> set (tls_ids c). \<exists>li. light_info_of obs t = Some (Info li) \<and>
               (case time_to_next_switch li of None \<Rightarrow> 0 | Some x \<Rightarrow> x) \<le> 0.5}"
  assume d: "decide_next_phase c obs = Inr (c', r)"
  from decide_next_phase_loop[OF d] obtain dec' where
    l: "decide_loop obs (tls_ids c) c [] = Inr (c', dec')"
    and r: "r = (if dec' = [] then None else Some dec')" by blast
  have "{t \<in> set (tls_ids c). eligible obs t \<noteq> None} = ?E"
    by (simp only: eligible_None_iff not_not)
  with decide_loop_keys[OF l] have k: "fst ` set dec' = ?E" by simp
  from decide_loop_distinct[OF l] have "distinct (map fst dec')" by simp
  with k r show "case r of None \<Rightarrow> ?E = {} | Some dec \<Rightarrow> dec \<noteq> [] \<and> distinct (map fst dec) \<and> fst ` set dec = ?E"
    by (cases "dec' = []") auto
qed

theorem decision_holds_exactly_the_eligible_witness:
  "(\<exists>c' dec. decide_next_phase controller_AB obs_due = Inr (c', Some dec) \<and> fst ` set dec = {''A''}) \<and>
   (\<exists>c'. decide_next_phase controller_A obs_idle = Inr (c', None))"
proof -
  have tips: "tips_ok controller_AB obs_due"
    by (simp add: tips_ok_def controller_AB_def eligible_def light_info_of_def obs_due_def tip_of_def)
  from decision_holds_exactly_the_eligible[of controller_AB obs_due] controller_inv_AB tips
  obtain c' r where d: "decide_next_phase controller_AB obs_due = Inr (c', r)" by blast
  have E: "{t \<in> set (tls_ids controller_AB). \<exists>li. light_info_of obs_due t = Some (Info li) \<and>
               (case time_to_next_switch li of None \<Rightarrow> 0 | Some x \<Rightarrow> x) \<le> 0.5} = {''A''}"
    by (auto simp: controller_AB_def light_info_of_def obs_due_def)
  from decision_holds_exactly_the_eligible[of controller_AB obs_due c' r] d
  have "case r of None \<Rightarrow> {''A''} = ({}::string set) | Some dec \<Rightarrow> dec \<noteq> [] \<and> distinct (map fst dec) \<and> fst ` set dec = {''A''}"
    by (simp only: E)
  with d have first: "\<exists>c' dec. decide_next_phase controller_AB obs_due = Inr (c', Some dec) \<and> fst ` set dec = {''A''}"
    by (cases r) auto
  have "tip_of \<lparr>time_to_next_switch = Some 0.51, current_phase = Some 0, time_in_phase = Some 10\<rparr> + 1 \<noteq> 0"
    by (simp add: tip_of_def)
  then have tips': "tips_ok controller_A obs_idle"
    unfolding obs_idle_def by (rule tips_ok_A)
  from decision_holds_exactly_the_eligible[of controller_A obs_idle] controller_inv_A tips'
  obtain c2 r2 where d2: "decide_next_phase controller_A obs_idle = Inr (c2, r2)" by blast
  have E2: "{t \<in> set (tls_ids controller_A). \<exists>li. light_info_of obs_idle t = Some (Info li) \<and>
               (case time_to_next_switch li of None \<Rightarrow> 0 | Some x \<Rightarrow> x) \<le> 0.5} = {}"
    by (auto simp: tls_ids_A obs_idle_def light_info_of_A)
  from decision_holds_exactly_the_eligible[of controller_A obs_idle c2 r2] d2
  have "case r2 of None \<Rightarrow> ({}::string set) = {} | Some dec \<Rightarrow> dec \<noteq> [] \<and> distinct (map fst dec) \<and> fst ` set dec = {}"
    by (simp only: E2)
  with d2 have "\<exists>c'. decide_next_phase controller_A obs_idle = Inr (c', None)"
    by (cases r2) auto
  with first show ?thesis by blast
qed

subsection \<open>The counters\<close>

lemma record_action_lpa:
  assumes "record_action c t p = Inr c'"
  shows "\<exists>m. last_phase_actions c t = Some m \<and>
       last_phase_actions c' =
         (last_phase_actions c)(t \<mapsto> m(p \<mapsto> (case m p of None \<Rightarrow> 0 | Some n \<Rightarrow> n) + 1))"
proof (cases "last_phase_actions c t")
  case None
  with assms show ?thesis by (simp add: record_action_def)
next
  case (Some m)
  with assms have "c' = c\<lparr>last_phase_actions :=
      (last_phase_actions c)(t \<mapsto> m(p \<mapsto> (case m p of None \<Rightarrow> 0 | Some n \<Rightarrow> n) + 1))\<rparr>"
    by (simp add: record_action_def)
  then have "last_phase_actions c' =
      (last_phase_actions c)(t \<mapsto> m(p \<mapsto> (case m p of None \<Rightarrow> 0 | Some n \<Rightarrow> n) + 1))"
    by simp
  with Some show ?thesis by (intro exI conjI)
qed

lemma record_action_counter:
  assumes "record_action c t p = Inr c'"
  shows "counter_entry c' u q =
     (if u = t \<and> q = p then Some ((case counter_entry c t p of None \<Rightarrow> 0 | Some n \<Rightarrow> n) + 1)
      else counter_entry c u q)"
proof -
  from record_action_lpa[OF assms] obtain m where
    m: "last_phase_actions c t = Some m"
    and c': "last_phase_actions c' =
         (last_phase_actions c)(t \<mapsto> m(p \<mapsto> (case m p of None \<Rightarrow> 0 | Some n \<Rightarrow> n) + 1))"
    by blast
  show ?thesis
    by (cases "u = t"; cases "q = p") (simp_all add: counter_entry_def c' m)
qed

lemma record_action_other:
  assumes "record_action c t p = Inr c'" "u \<noteq> t"
  shows "last_phase_actions c' u = last_phase_actions c u"
proof -
  from record_action_lpa[OF assms(1)] obtain m where
    "last_phase_actions c' =
         (last_phase_actions c)(t \<mapsto> m(p \<mapsto> (case m p of None \<Rightarrow> 0 | Some n \<Rightarrow> n) + 1))"
    by blast
  with assms(2) show ?thesis by simp
qed

lemma record_action_dom:
  assumes "record_action c t p = Inr c'"
  shows "dom (last_phase_actions c') = dom (last_phase_actions c)"
proof -
  from record_action_lpa[OF assms] obtain m where
    m: "last_phase_actions c t = Some m"
    and c': "last_phase_actions c' =
         (last_phase_actions c)(t \<mapsto> m(p \<mapsto> (case m p of None \<Rightarrow> 0 | Some n \<Rightarrow> n) + 1))"
    by blast
  from m have "t \<in> dom (last_phase_actions c)" by blast
  then show ?thesis by (simp add: c' insert_absorb)
qed

lemma decide_loop_counter_other:
  "decide_loop obs ts c dec = Inr (c', dec') \<Longrightarrow> t \<notin> set ts \<or> eligible obs t = None \<Longrightarrow>
   last_phase_actions c' t = last_phase_actions c t"
proof (induction ts arbitrary: c dec)
  case Nil
  then show ?case by simp
next
  case (Cons u ts)
  from Cons.prems(2) have rest: "t \<notin> set ts \<or> eligible obs t = None" by auto
  show ?case
  proof (cases "eligible obs u")
    case None
    with Cons.prems(1) have "decide_loop obs ts c dec = Inr (c', dec')"
      by (simp only: decide_loop_skip)
    from Cons.IH[OF this rest] show ?thesis .
  next
    case (Some lu)
    with Cons.prems(2) have ne: "t \<noteq> u" by auto
    from decide_loop_act[OF Some Cons.prems(1)] obtain a c1 where
      r: "record_action c u (phase_id a) = Inr c1"
      and l: "decide_loop obs ts c1 (AList.update u a dec) = Inr (c', dec')"
      by blast
    from Cons.IH[OF l rest] record_action_other[OF r ne] show ?thesis by simp
  qed
qed

lemma decide_loop_dom:
  "decide_loop obs ts c dec = Inr (c', dec') \<Longrightarrow>
   dom (last_phase_actions c') = dom (last_phase_actions c)"
proof (induction ts arbitrary: c dec)
  case Nil
  then show ?case by simp
next
  case (Cons u ts)
  show ?case
  proof (cases "eligible obs u")
    case None
    with Cons.prems(1) have "decide_loop obs ts c dec = Inr (c', dec')"
      by (simp only: decide_loop_skip)
    from Cons.IH[OF this] show ?thesis .
  next
    case (Some lu)
    from decide_loop_act[OF Some Cons.prems(1)] obtain a c1 where
      r: "record_action c u (phase_id a) = Inr c1"
      and l: "decide_loop obs ts c1 (AList.update u a dec) = Inr (c', dec')"
      by blast
    from Cons.IH[OF l] record_action_dom[OF r] show ?thesis by simp
  qed
qed

lemma decide_loop_counter_entry:
  "decide_loop obs ts c dec = Inr (c', dec') \<Longrightarrow> distinct ts \<Longrightarrow> t \<in> set ts \<Longrightarrow>
   eligible obs t = Some li \<Longrightarrow> decide_one c obs t li = Inr a \<Longrightarrow>
   counter_entry c' t q =
     (if q = phase_id a then Some ((case counter_entry c t q of None \<Rightarrow> 0 | Some n \<Rightarrow> n) + 1)
      else counter_entry c t q)"
proof (induction ts arbitrary: c dec)
  case Nil
  then show ?case by simp
next
  case (Cons u ts)
  from Cons.prems(2) have du: "u \<notin> set ts" and dts: "distinct ts" by simp_all
  show ?case
  proof (cases "u = t")
    case True
    with Cons.prems(4) have e: "eligible obs u = Some li" by simp
    from decide_loop_act[OF e Cons.prems(1)] obtain a' c1 where
      d: "decide_one c obs u li = Inr a'"
      and r: "record_action c u (phase_id a') = Inr c1"
      and l: "decide_loop obs ts c1 (AList.update u a' dec) = Inr (c', dec')"
      by blast
    from d Cons.prems(5) True have aa: "a' = a" by simp
    from du True have "t \<notin> set ts \<or> eligible obs t = None" by simp
    from decide_loop_counter_other[OF l this]
    have "counter_entry c' t q = counter_entry c1 t q" by (simp add: counter_entry_def)
    also have "\<dots> = (if q = phase_id a then Some ((case counter_entry c t q of None \<Rightarrow> 0 | Some n \<Rightarrow> n) + 1)
      else counter_entry c t q)"
    proof -
      from r have r': "record_action c t (phase_id a) = Inr c1" by (simp only: True aa)
      show ?thesis
      proof (cases "q = phase_id a")
        case True
        then show ?thesis using record_action_counter[OF r', of t "phase_id a"] by simp
      next
        case False
        then show ?thesis using record_action_counter[OF r', of t q] by simp
      qed
    qed
    finally show ?thesis .
  next
    case False
    with Cons.prems(3) have tin: "t \<in> set ts" by simp
    show ?thesis
    proof (cases "eligible obs u")
      case None
      with Cons.prems(1) have "decide_loop obs ts c dec = Inr (c', dec')"
        by (simp only: decide_loop_skip)
      from Cons.IH[OF this dts tin Cons.prems(4,5)] show ?thesis .
    next
      case (Some lu)
      from decide_loop_act[OF Some Cons.prems(1)] obtain a' c1 where
        r: "record_action c u (phase_id a') = Inr c1"
        and l: "decide_loop obs ts c1 (AList.update u a' dec) = Inr (c', dec')"
        by blast
      have "decide_one c1 obs t li = Inr a"
        using decide_one_static[OF record_action_static[OF r]] Cons.prems(5) by simp
      from Cons.IH[OF l dts tin Cons.prems(4) this]
      have ih: "counter_entry c' t q =
        (if q = phase_id a then Some ((case counter_entry c1 t q of None \<Rightarrow> 0 | Some n \<Rightarrow> n) + 1)
         else counter_entry c1 t q)" .
      have eq: "counter_entry c1 t q = counter_entry c t q"
        using record_action_other[OF r, of t] False by (simp add: counter_entry_def)
      from ih show ?thesis unfolding eq .
    qed
  qed
qed



lemma decide_yellow:
  "decide_next_phase controller_A obs_yellow =
     Inr (controller_A\<lparr>last_phase_actions := [''A'' \<mapsto> [1 \<mapsto> 1]]\<rparr>,
          Some [(''A'', \<lparr>phase_id = 1, duration = 8.7\<rparr>)])"
proof -
  have t: "time_to_next_switch li_yellow = Some 0" by (simp add: li_yellow_def)
  have s: "select_phase controller_A (obs_A li_yellow Map.empty) ''A'' li_yellow = Inr 1"
    using select_yellow unfolding obs_yellow_def .
  have d: "phase_duration controller_A (obs_A li_yellow Map.empty) ''A'' li_yellow 1 = 8.7"
    using duration_yellow unfolding obs_yellow_def .
  show ?thesis unfolding obs_yellow_def by (rule decide_A[OF t s d])
qed

text \<open>
  C9. When the intersection identifiers of the controller are pairwise distinct, a
  call that returns changes nothing but counters: \<open>tls_ids\<close>, the duration bounds,
  \<open>green_phases\<close> and \<open>cursor\<close> are as before, no counter dict appears or disappears,
  the counter of every (intersection, phase) pair the decision selects has grown by
  exactly 1 (from 0 when it was missing), and every other counter is as before.
\<close>

theorem call_increments_selected_counters_only:
  assumes "decide_next_phase c obs = Inr (c', r)" and "distinct (tls_ids c)"
  shows "tls_ids c' = tls_ids c \<and> min_green_duration c' = min_green_duration c \<and>
     max_green_duration c' = max_green_duration c \<and> green_phases c' = green_phases c \<and>
     cursor c' = cursor c \<and> dom (last_phase_actions c') = dom (last_phase_actions c) \<and>
     (\<forall>t p. counter_entry c' t p =
        (if selected r t = Some p
         then Some ((case counter_entry c t p of None \<Rightarrow> 0 | Some n \<Rightarrow> n) + 1)
         else counter_entry c t p))"
proof -
  from decide_next_phase_loop[OF assms(1)] obtain dec' where
    l: "decide_loop obs (tls_ids c) c [] = Inr (c', dec')"
    and r: "r = (if dec' = [] then None else Some dec')" by blast
  from decide_loop_static[OF l] have static: "same_static c c'" .
  have counters: "counter_entry c' t p =
        (if selected r t = Some p
         then Some ((case counter_entry c t p of None \<Rightarrow> 0 | Some n \<Rightarrow> n) + 1)
         else counter_entry c t p)" for t p
  proof (cases "t \<in> set (tls_ids c) \<and> eligible obs t \<noteq> None")
    case True
    then obtain li where tin: "t \<in> set (tls_ids c)" and e: "eligible obs t = Some li" by auto
    from decide_loop_entry[OF l tin e] obtain a where
      a: "decide_one c obs t li = Inr a" "map_of dec' t = Some a" by blast
    then have "selected r t = Some (phase_id a)"
      by (simp only: r selected_of_loop option.case)
    with decide_loop_counter_entry[OF l assms(2) tin e a(1), of p] show ?thesis by auto
  next
    case False
    then have n: "t \<notin> set (tls_ids c) \<or> eligible obs t = None" by blast
    from decide_next_phase_no_entry[OF assms(1) n] have "selected r t = None" .
    moreover from decide_loop_counter_other[OF l n] have "counter_entry c' t p = counter_entry c t p"
      by (simp add: counter_entry_def)
    ultimately show ?thesis by simp
  qed
  from static decide_loop_dom[OF l] counters show ?thesis
    by (simp add: same_static_def)
qed



theorem call_increments_selected_counters_only_witness:
  "distinct (tls_ids controller_A) \<and>
   counter_entry controller_A ''A'' 1 = None \<and>
   (\<exists>c' r. decide_next_phase controller_A obs_yellow = Inr (c', r) \<and>
      selected r ''A'' = Some 1 \<and>
      counter_entry c' ''A'' 1 = Some 1 \<and>
      counter_entry c' ''A'' 0 = counter_entry controller_A ''A'' 0 \<and>
      green_phases c' = green_phases controller_A \<and> cursor c' = cursor controller_A)"
proof -
  have d: "distinct (tls_ids controller_A)" by (simp add: tls_ids_A)
  have s: "selected (Some [(''A'', \<lparr>phase_id = 1, duration = 8.7\<rparr>)]) ''A'' = Some 1"
    by (simp add: selected_def)
  have n: "counter_entry controller_A ''A'' 1 = None"
    by (simp add: counter_entry_def controller_A_def)
  define C' where "C' = controller_A\<lparr>last_phase_actions := [''A'' \<mapsto> [1 \<mapsto> 1]]\<rparr>"
  define R where "R = Some [(''A'', \<lparr>phase_id = 1, duration = 8.7\<rparr>)]"
  have dy: "decide_next_phase controller_A obs_yellow = Inr (C', R)"
    unfolding C'_def R_def by (rule decide_yellow)
  have sR: "selected R ''A'' = Some 1"
    unfolding R_def by (rule s)
  note T = call_increments_selected_counters_only[OF dy d]
  note g = T[THEN conjunct2, THEN conjunct2, THEN conjunct2, THEN conjunct1]
  note cu = T[THEN conjunct2, THEN conjunct2, THEN conjunct2, THEN conjunct2, THEN conjunct1]
  note all = T[THEN conjunct2, THEN conjunct2, THEN conjunct2, THEN conjunct2, THEN conjunct2,
      THEN conjunct2, rule_format, of "''A''"]
  have c1: "counter_entry C' ''A'' 1 = Some 1"
    by (simp add: all[of 1] sR n)
  have c0: "counter_entry C' ''A'' 0 = counter_entry controller_A ''A'' 0"
    by (simp add: all[of 0] sR)
  have "decide_next_phase controller_A obs_yellow = Inr (C', R) \<and>
      selected R ''A'' = Some 1 \<and>
      counter_entry C' ''A'' 1 = Some 1 \<and>
      counter_entry C' ''A'' 0 = counter_entry controller_A ''A'' 0 \<and>
      green_phases C' = green_phases controller_A \<and> cursor C' = cursor controller_A"
    by (intro conjI dy sR c1 c0 g cu)
  then have "\<exists>c' r. decide_next_phase controller_A obs_yellow = Inr (c', r) \<and>
      selected r ''A'' = Some 1 \<and>
      counter_entry c' ''A'' 1 = Some 1 \<and>
      counter_entry c' ''A'' 0 = counter_entry controller_A ''A'' 0 \<and>
      green_phases c' = green_phases controller_A \<and> cursor c' = cursor controller_A"
    by (intro exI)
  with d n show ?thesis by (intro conjI)
qed

subsection \<open>Construction\<close>

lemma init_phases_Cons:
  "init_phases catalog (t # ts) c =
     (if greens_of (catalog t) = [] then Inl (RuntimeError t)
      else init_phases catalog ts
             (c\<lparr>green_phases := (green_phases c)(t \<mapsto> sort (greens_of (catalog t))),
                cursor := (cursor c)(t \<mapsto> 0)\<rparr>))"
  by (simp add: Let_def)

lemma init_phases_error:
  "init_phases catalog ids c = Inl e \<Longrightarrow>
   \<exists>t \<in> set ids. e = RuntimeError t \<and> greens_of (catalog t) = []"
proof (induction ids arbitrary: c)
  case Nil
  then show ?case by simp
next
  case (Cons t ts)
  show ?case
  proof (cases "greens_of (catalog t) = []")
    case True
    with Cons.prems show ?thesis by (simp add: init_phases_Cons del: init_phases.simps)
  next
    case False
    with Cons.prems have "init_phases catalog ts
             (c\<lparr>green_phases := (green_phases c)(t \<mapsto> sort (greens_of (catalog t))),
                cursor := (cursor c)(t \<mapsto> 0)\<rparr>) = Inl e"
      by (simp add: init_phases_Cons del: init_phases.simps)
    from Cons.IH[OF this] show ?thesis by auto
  qed
qed

lemma init_phases_ok:
  "\<forall>t \<in> set ids. greens_of (catalog t) \<noteq> [] \<Longrightarrow> \<exists>c'. init_phases catalog ids c = Inr c'"
proof (induction ids arbitrary: c)
  case Nil
  then show ?case by simp
next
  case (Cons t ts)
  then have "greens_of (catalog t) \<noteq> []" and "\<forall>t \<in> set ts. greens_of (catalog t) \<noteq> []"
    by simp_all
  with Cons.IH show ?case by (simp add: init_phases_Cons del: init_phases.simps)
qed

lemma init_phases_fails:
  "\<exists>t \<in> set ids. greens_of (catalog t) = [] \<Longrightarrow> \<exists>e. init_phases catalog ids c = Inl e"
proof (induction ids arbitrary: c)
  case Nil
  then show ?case by simp
next
  case (Cons u ts)
  show ?case
  proof (cases "greens_of (catalog u) = []")
    case True
    then show ?thesis by (simp add: init_phases_Cons del: init_phases.simps)
  next
    case False
    with Cons.prems have "\<exists>t \<in> set ts. greens_of (catalog t) = []" by auto
    from Cons.IH[OF this] False show ?thesis
      by (simp add: init_phases_Cons del: init_phases.simps)
  qed
qed

lemma init_phases_fields:
  "init_phases catalog ids c = Inr c' \<Longrightarrow>
   tls_ids c' = tls_ids c \<and> min_green_duration c' = min_green_duration c \<and>
   max_green_duration c' = max_green_duration c \<and> last_phase_actions c' = last_phase_actions c"
proof (induction ids arbitrary: c)
  case Nil
  then show ?case by simp
next
  case (Cons t ts)
  show ?case
  proof (cases "greens_of (catalog t) = []")
    case True
    with Cons.prems show ?thesis by (simp add: init_phases_Cons del: init_phases.simps)
  next
    case False
    with Cons.prems have "init_phases catalog ts
             (c\<lparr>green_phases := (green_phases c)(t \<mapsto> sort (greens_of (catalog t))),
                cursor := (cursor c)(t \<mapsto> 0)\<rparr>) = Inr c'"
      by (simp add: init_phases_Cons del: init_phases.simps)
    from Cons.IH[OF this] show ?thesis by simp
  qed
qed

lemma init_phases_greens:
  "init_phases catalog ids c = Inr c' \<Longrightarrow>
   t \<in> set ids \<or> (\<exists>g. green_phases c t = Some g \<and> g \<noteq> []) \<Longrightarrow>
   \<exists>g. green_phases c' t = Some g \<and> g \<noteq> []"
proof (induction ids arbitrary: c)
  case Nil
  then show ?case by simp
next
  case (Cons u ts)
  let ?c = "c\<lparr>green_phases := (green_phases c)(u \<mapsto> sort (greens_of (catalog u))),
                cursor := (cursor c)(u \<mapsto> 0)\<rparr>"
  show ?case
  proof (cases "greens_of (catalog u) = []")
    case True
    with Cons.prems show ?thesis by (simp add: init_phases_Cons del: init_phases.simps)
  next
    case False
    with Cons.prems(1) have l: "init_phases catalog ts ?c = Inr c'"
      by (simp add: init_phases_Cons del: init_phases.simps)
    from False have "sort (greens_of (catalog u)) \<noteq> []"
      by (metis length_sort length_0_conv)
    with Cons.prems(2) have "t \<in> set ts \<or> (\<exists>g. green_phases ?c t = Some g \<and> g \<noteq> [])"
      by (cases "t = u") auto
    from Cons.IH[OF l this] show ?thesis .
  qed
qed

lemma init_actions_fields:
  "tls_ids (init_actions ids c) = tls_ids c \<and>
   min_green_duration (init_actions ids c) = min_green_duration c \<and>
   max_green_duration (init_actions ids c) = max_green_duration c \<and>
   green_phases (init_actions ids c) = green_phases c"
  by (induction ids arbitrary: c) simp_all

lemma init_actions_counters:
  "t \<in> set ids \<or> last_phase_actions c t \<noteq> None \<Longrightarrow>
   last_phase_actions (init_actions ids c) t \<noteq> None"
proof (induction ids arbitrary: c)
  case Nil
  then show ?case by simp
next
  case (Cons u ts)
  let ?c = "c\<lparr>last_phase_actions := (last_phase_actions c)(u \<mapsto> Map.empty)\<rparr>"
  from Cons.prems have "t \<in> set ts \<or> last_phase_actions ?c t \<noteq> None"
    by (cases "t = u") auto
  from Cons.IH[OF this] show ?case by simp
qed

lemma init_inv:
  assumes "init ids catalog = Inr c"
  shows "controller_inv c \<and> tls_ids c = ids"
proof -
  let ?c0 = "\<lparr>tls_ids = ids, min_green_duration = 7, max_green_duration = 70,
              green_phases = Map.empty, cursor = Map.empty, last_phase_actions = Map.empty\<rparr>"
  from assms obtain c1 where p: "init_phases catalog ids ?c0 = Inr c1"
    and c: "c = init_actions ids c1"
    by (auto simp: init_def split: sum.splits)
  from init_phases_fields[OF p] have f1: "tls_ids c1 = ids" "min_green_duration c1 = 7"
    "max_green_duration c1 = 70" by simp_all
  note f = init_actions_fields[of ids c1]
  have "tls_ok c t" if "t \<in> set ids" for t
  proof -
    from that init_phases_greens[OF p, of t] obtain g where "green_phases c1 t = Some g" "g \<noteq> []"
      by blast
    with f have "green_phases c t = Some g" "g \<noteq> []" by (simp_all add: c)
    moreover from that init_actions_counters[of t ids c1] have "last_phase_actions c t \<noteq> None"
      by (simp add: c)
    ultimately show ?thesis by (simp add: tls_ok_def)
  qed
  with f f1 show ?thesis by (simp add: controller_inv_def c list_all_iff)
qed

lemma greens_of_Nil:
  "greens_of phases = [] \<longleftrightarrow>
     \<not> (\<exists>ph \<in> set phases. CHR ''y'' \<notin> set (state ph) \<and>
           (CHR ''G'' \<in> set (state ph) \<or> CHR ''g'' \<in> set (state ph)))"
  by (auto simp: greens_of_def is_green_def filter_empty_conv list_ex_iff)

text \<open>
  C7. Construction fails if and only if, for some intersection, no phase of its
  catalog has a state string without \<open>y\<close> and with a \<open>G\<close> or a \<open>g\<close>; the failure is the
  \<open>RuntimeError\<close> for such an intersection, no controller exists then, so no tick can
  be processed, and the constructor makes no second attempt.
\<close>

theorem construction_fails_iff_no_green_phase:
  "((\<exists>e. init ids catalog = Inl e) \<longleftrightarrow>
      (\<exists>t \<in> set ids. \<not> (\<exists>ph \<in> set (catalog t). CHR ''y'' \<notin> set (state ph) \<and>
           (CHR ''G'' \<in> set (state ph) \<or> CHR ''g'' \<in> set (state ph))))) \<and>
   (\<forall>e. init ids catalog = Inl e \<longrightarrow> (\<exists>t \<in> set ids. e = RuntimeError t)) \<and>
   ((\<exists>c. init ids catalog = Inr c) \<longleftrightarrow> \<not> (\<exists>e. init ids catalog = Inl e))"
proof -
  let ?c0 = "\<lparr>tls_ids = ids, min_green_duration = 7, max_green_duration = 70,
              green_phases = Map.empty, cursor = Map.empty, last_phase_actions = Map.empty\<rparr>"
  have e: "init ids catalog = Inl e \<longleftrightarrow> init_phases catalog ids ?c0 = Inl e" for e
    by (simp add: init_def split: sum.splits)
  have "(\<exists>e. init ids catalog = Inl e) \<longleftrightarrow> (\<exists>t \<in> set ids. greens_of (catalog t) = [])"
  proof
    assume "\<exists>e. init ids catalog = Inl e"
    then obtain e where "init_phases catalog ids ?c0 = Inl e" using e by blast
    from init_phases_error[OF this] show "\<exists>t \<in> set ids. greens_of (catalog t) = []" by blast
  next
    assume "\<exists>t \<in> set ids. greens_of (catalog t) = []"
    from init_phases_fails[OF this, of ?c0] show "\<exists>e. init ids catalog = Inl e"
      using e by blast
  qed
  then have first: "(\<exists>e. init ids catalog = Inl e) \<longleftrightarrow>
      (\<exists>t \<in> set ids. \<not> (\<exists>ph \<in> set (catalog t). CHR ''y'' \<notin> set (state ph) \<and>
           (CHR ''G'' \<in> set (state ph) \<or> CHR ''g'' \<in> set (state ph))))"
    by (simp only: greens_of_Nil)
  have second: "\<forall>e. init ids catalog = Inl e \<longrightarrow> (\<exists>t \<in> set ids. e = RuntimeError t)"
  proof (intro allI impI)
    fix e assume "init ids catalog = Inl e"
    then have "init_phases catalog ids ?c0 = Inl e" using e by blast
    from init_phases_error[OF this] show "\<exists>t \<in> set ids. e = RuntimeError t" by blast
  qed
  have third: "(\<exists>c. init ids catalog = Inr c) \<longleftrightarrow> \<not> (\<exists>e. init ids catalog = Inl e)"
    by (cases "init ids catalog") simp_all
  from first second third show ?thesis by (intro conjI)
qed

theorem construction_fails_iff_no_green_phase_witness:
  "init [''A'', ''B''] catalog_bad = Inl (RuntimeError ''B'') \<and>
   (\<exists>c. init [''A'', ''B''] catalog_A = Inr c)"
proof -
  note T = construction_fails_iff_no_green_phase[of "[''A'', ''B'']" catalog_bad]
  have "\<exists>t \<in> set [''A'', ''B'']. \<not> (\<exists>ph \<in> set (catalog_bad t). CHR ''y'' \<notin> set (state ph) \<and>
           (CHR ''G'' \<in> set (state ph) \<or> CHR ''g'' \<in> set (state ph)))"
    by (simp add: catalog_bad_def)
  with T obtain e where e: "init [''A'', ''B''] catalog_bad = Inl e" by blast
  with T obtain t where "t \<in> set [''A'', ''B'']" "e = RuntimeError t" by blast
  moreover have "init [''A'', ''B''] catalog_bad \<noteq> Inl (RuntimeError ''A'')"
    by (simp add: init_def catalog_bad_def catalog_A_def greens_of_def is_green_def)
  ultimately have bad: "init [''A'', ''B''] catalog_bad = Inl (RuntimeError ''B'')"
    using e by auto
  note T' = construction_fails_iff_no_green_phase[of "[''A'', ''B'']" catalog_A]
  have "\<not> (\<exists>t \<in> set [''A'', ''B'']. \<not> (\<exists>ph \<in> set (catalog_A t). CHR ''y'' \<notin> set (state ph) \<and>
           (CHR ''G'' \<in> set (state ph) \<or> CHR ''g'' \<in> set (state ph))))"
    by (simp add: catalog_A_def)
  with T' have "\<exists>c. init [''A'', ''B''] catalog_A = Inr c" by blast
  with bad show ?thesis by (intro conjI)
qed

subsection \<open>Independence of the counters\<close>

lemma same_static_sym: "same_static a b \<Longrightarrow> same_static b a"
  by (simp add: same_static_def)

lemma decide_loop_deterministic:
  "same_static c1 c2 \<Longrightarrow> list_all (tls_ok c1) ts \<Longrightarrow> list_all (tls_ok c2) ts \<Longrightarrow>
   map_sum id snd (decide_loop obs ts c1 dec) = map_sum id snd (decide_loop obs ts c2 dec)"
proof (induction ts arbitrary: c1 c2 dec)
  case Nil
  then show ?case by simp
next
  case (Cons u ts)
  from Cons.prems have ok1: "tls_ok c1 u" and oks1: "list_all (tls_ok c1) ts"
    and ok2: "tls_ok c2 u" and oks2: "list_all (tls_ok c2) ts" by simp_all
  show ?case
  proof (cases "eligible obs u")
    case None
    from Cons.IH[OF Cons.prems(1) oks1 oks2] show ?thesis
      by (simp only: decide_loop_skip[OF None])
  next
    case (Some lu)
    have d: "decide_one c2 obs u lu = decide_one c1 obs u lu"
      by (rule decide_one_static[OF Cons.prems(1)])
    show ?thesis
    proof (cases "decide_one c1 obs u lu")
      case (Inl e)
      then show ?thesis
        by (simp only: decide_loop_Cons Some d option.case sum.case map_sum.simps id_apply)
    next
      case (Inr a)
      from ok1 have "last_phase_actions c1 u \<noteq> None" by (simp add: tls_ok_def)
      from record_action_ok[OF this] obtain c1' where r1: "record_action c1 u (phase_id a) = Inr c1'"
        by blast
      from ok2 have "last_phase_actions c2 u \<noteq> None" by (simp add: tls_ok_def)
      from record_action_ok[OF this] obtain c2' where r2: "record_action c2 u (phase_id a) = Inr c2'"
        by blast
      have s: "same_static c1' c2'"
        using same_static_sym[OF record_action_static[OF r1]] Cons.prems(1) record_action_static[OF r2]
        by (blast intro: same_static_trans)
      from oks1 have o1: "list_all (tls_ok c1') ts"
        by (simp add: record_action_tls_ok[OF r1] list_all_iff)
      from oks2 have o2: "list_all (tls_ok c2') ts"
        by (simp add: record_action_tls_ok[OF r2] list_all_iff)
      from Cons.IH[OF s o1 o2] show ?thesis
        by (simp only: decide_loop_Cons Some d Inr r1 r2 option.case sum.case)
    qed
  qed
qed

lemma decision_of_loop:
  "decision_of (decide_next_phase c obs) =
     (case map_sum id snd (decide_loop obs (tls_ids c) c []) of
        Inl e \<Rightarrow> Inl e
      | Inr dec \<Rightarrow> Inr (if dec = [] then None else Some dec))"
  by (cases "decide_loop obs (tls_ids c) c []")
     (auto simp: decision_of_def decide_next_phase_def)

lemma decision_of_static:
  assumes "same_static c1 c2" "controller_inv c1" "controller_inv c2"
  shows "decision_of (decide_next_phase c1 obs) = decision_of (decide_next_phase c2 obs)"
proof -
  from assms(1) have t: "tls_ids c2 = tls_ids c1" by (simp add: same_static_def)
  from assms(2) have o1: "list_all (tls_ok c1) (tls_ids c1)" by (simp add: controller_inv_def)
  from assms(3) t have o2: "list_all (tls_ok c2) (tls_ids c1)" by (simp add: controller_inv_def)
  from decide_loop_deterministic[OF assms(1) o1 o2]
  show ?thesis by (simp only: decision_of_loop t)
qed

lemma run_inv:
  "run c h = Inr c' \<Longrightarrow> controller_inv c \<Longrightarrow> controller_inv c' \<and> same_static c c'"
proof (induction h arbitrary: c)
  case Nil
  then show ?case by (simp add: same_static_refl)
next
  case (Cons obs h)
  from Cons.prems(1) obtain c1 r where d: "decide_next_phase c obs = Inr (c1, r)"
    and rest: "run c1 h = Inr c'"
    by (auto split: sum.splits)
  from decide_next_phase_inv[OF d Cons.prems(2)] have i: "controller_inv c1" .
  from Cons.IH[OF rest i] decide_next_phase_static[OF d] show ?case
    by (blast intro: same_static_trans)
qed

text \<open>
  C8. Take a controller as constructed from a catalog, and let it serve any two
  histories of calls. On the same observation the two resulting controllers, whose
  counters differ, return the same decision (or raise the same exception): the output
  is a function of the catalog and the observation alone.
\<close>

theorem decision_independent_of_counters:
  assumes "init ids catalog = Inr c0"
    and "run c0 h1 = Inr c1" and "run c0 h2 = Inr c2"
  shows "decision_of (decide_next_phase c1 obs) = decision_of (decide_next_phase c2 obs)"
proof -
  from init_inv[OF assms(1)] have i0: "controller_inv c0" by simp
  from run_inv[OF assms(2) i0] have i1: "controller_inv c1" and s1: "same_static c0 c1" by simp_all
  from run_inv[OF assms(3) i0] have i2: "controller_inv c2" and s2: "same_static c0 c2" by simp_all
  from same_static_sym[OF s1] s2 have "same_static c1 c2" by (rule same_static_trans)
  from decision_of_static[OF this i1 i2] show ?thesis .
qed

theorem decision_independent_of_counters_witness:
  "counter_entry controller_A ''A'' 1 = None \<and>
   counter_entry (controller_A\<lparr>last_phase_actions := [''A'' \<mapsto> [1 \<mapsto> 1]]\<rparr>) ''A'' 1 = Some 1 \<and>
   decision_of (decide_next_phase controller_A obs_yellow) =
   decision_of (decide_next_phase (controller_A\<lparr>last_phase_actions := [''A'' \<mapsto> [1 \<mapsto> 1]]\<rparr>) obs_yellow)"
proof -
  have r1: "run controller_A [] = Inr controller_A" by simp
  have r2: "run controller_A [obs_yellow] = Inr (controller_A\<lparr>last_phase_actions := [''A'' \<mapsto> [1 \<mapsto> 1]]\<rparr>)"
    by (simp add: decide_yellow)
  have "decision_of (decide_next_phase controller_A obs_yellow) =
   decision_of (decide_next_phase (controller_A\<lparr>last_phase_actions := [''A'' \<mapsto> [1 \<mapsto> 1]]\<rparr>) obs_yellow)"
    by (rule decision_independent_of_counters[OF init_A r1 r2])
  moreover have "counter_entry controller_A ''A'' 1 = None"
    by (simp add: counter_entry_def controller_A_def)
  moreover have "counter_entry (controller_A\<lparr>last_phase_actions := [''A'' \<mapsto> [1 \<mapsto> 1]]\<rparr>) ''A'' 1 = Some 1"
    by (simp add: counter_entry_def)
  ultimately show ?thesis by (intro conjI)
qed

subsection \<open>Entries that are false, and a missing lights map\<close>

lemma decide_loop_all_skip:
  "\<forall>t \<in> set ts. eligible obs t = None \<Longrightarrow> decide_loop obs ts c dec = Inr (c, dec)"
proof (induction ts)
  case Nil
  then show ?case by simp
next
  case (Cons u ts)
  then have "eligible obs u = None" and "decide_loop obs ts c dec = Inr (c, dec)" by simp_all
  then show ?case by (simp only: decide_loop_skip)
qed

lemma decide_one_waiting:
  assumes "waiting_vehicles obs' = waiting_vehicles obs"
  shows "decide_one c obs' t li = decide_one c obs t li"
  unfolding decide_one_def select_phase_def get_phase_priority_def phase_duration_def
    calculate_phase_efficiency_def estimate_phase_capacity_def calculate_waiting_traffic_def assms
  by (rule refl)

lemma decide_loop_obs_cong:
  "waiting_vehicles obs' = waiting_vehicles obs \<Longrightarrow> \<forall>t \<in> set ts. eligible obs' t = eligible obs t \<Longrightarrow>
   decide_loop obs' ts c dec = decide_loop obs ts c dec"
proof (induction ts arbitrary: c dec)
  case Nil
  then show ?case by simp
next
  case (Cons u ts)
  from Cons.prems have e: "eligible obs' u = eligible obs u"
    and es: "\<forall>t \<in> set ts. eligible obs' t = eligible obs t" by simp_all
  have ih: "decide_loop obs' ts c'' dec'' = decide_loop obs ts c'' dec''" for c'' dec''
    by (rule Cons.IH[OF Cons.prems(1) es])
  show ?case
    unfolding decide_loop_Cons e ih decide_one_waiting[OF Cons.prems(1)] by (rule refl)
qed

lemma eligible_no_lights: "lights obs = None \<Longrightarrow> eligible obs t = None"
  by (simp add: eligible_def light_info_of_def)

lemma eligible_falsy: "light_info_of obs t = Some Falsy \<Longrightarrow> eligible obs t = None"
  by (simp add: eligible_def)

lemma eligible_drop_falsy:
  assumes "lights obs = Some ls" "ls t = Some Falsy"
  shows "eligible (obs\<lparr>lights := Some (ls(t := None))\<rparr>) u = eligible obs u"
  using assms by (cases "u = t") (simp_all add: eligible_def light_info_of_def)

text \<open>
  C10. When the observation has no lights map, the call returns \<open>None\<close> and leaves
  the controller as it is. When the lights map binds an intersection to a false value,
  the call does exactly what it does on the observation without that binding (the same
  result, the same controller, the same exception if one is raised elsewhere), and a
  decision it returns has no entry for that intersection.
\<close>

theorem falsy_light_info_is_skipped:
  "(lights obs = None \<longrightarrow> decide_next_phase c obs = Inr (c, None)) \<and>
   (lights obs = Some ls \<and> ls t = Some Falsy \<longrightarrow>
      decide_next_phase c obs = decide_next_phase c (obs\<lparr>lights := Some (ls(t := None))\<rparr>)) \<and>
   (light_info_of obs t = Some Falsy \<and> decide_next_phase c obs = Inr (c', r) \<longrightarrow>
      selected r t = None \<and> last_phase_actions c' t = last_phase_actions c t)"
proof (intro conjI impI)
  assume "lights obs = None"
  then have "\<forall>t \<in> set (tls_ids c). eligible obs t = None"
    by (simp add: eligible_no_lights)
  from decide_loop_all_skip[OF this] show "decide_next_phase c obs = Inr (c, None)"
    by (simp add: decide_next_phase_def)
next
  assume a: "lights obs = Some ls \<and> ls t = Some Falsy"
  let ?obs = "obs\<lparr>lights := Some (ls(t := None))\<rparr>"
  have w: "waiting_vehicles ?obs = waiting_vehicles obs" by simp
  from a have "\<forall>u \<in> set (tls_ids c). eligible ?obs u = eligible obs u"
    by (simp add: eligible_drop_falsy)
  from decide_loop_obs_cong[OF w this]
  show "decide_next_phase c obs = decide_next_phase c ?obs"
    by (simp only: decide_next_phase_def)
next
  assume a: "light_info_of obs t = Some Falsy \<and> decide_next_phase c obs = Inr (c', r)"
  then have e: "t \<notin> set (tls_ids c) \<or> eligible obs t = None"
    by (simp add: eligible_falsy)
  from a have d: "decide_next_phase c obs = Inr (c', r)" by simp
  from decide_next_phase_no_entry[OF d e] show "selected r t = None" .
  from decide_next_phase_loop[OF d] obtain dec' where
    "decide_loop obs (tls_ids c) c [] = Inr (c', dec')" by blast
  from decide_loop_counter_other[OF this e]
  show "last_phase_actions c' t = last_phase_actions c t" .
qed

theorem falsy_light_info_is_skipped_witness:
  "decide_next_phase controller_A obs_no_lights = Inr (controller_A, None) \<and>
   decide_next_phase controller_A obs_falsy = Inr (controller_A, None)"
proof -
  have l: "lights obs_no_lights = None" by (simp add: obs_no_lights_def)
  from falsy_light_info_is_skipped[where obs = obs_no_lights and c = controller_A] l
  have first: "decide_next_phase controller_A obs_no_lights = Inr (controller_A, None)"
    by (simp only: simp_thms)
  have f: "lights obs_falsy = Some [''A'' \<mapsto> Falsy] \<and> [''A'' \<mapsto> Falsy] ''A'' = Some Falsy"
    by (simp add: obs_falsy_def)
  from falsy_light_info_is_skipped[where obs = obs_falsy and ls = "[''A'' \<mapsto> Falsy]" and t = "''A''"
      and c = controller_A] f
  have "decide_next_phase controller_A obs_falsy =
        decide_next_phase controller_A (obs_falsy\<lparr>lights := Some ([''A'' \<mapsto> Falsy](''A'' := None))\<rparr>)"
    by (simp only: simp_thms)
  also have "\<dots> = Inr (controller_A, None)"
    by (simp add: decide_next_phase_def tls_ids_A light_info_of_def obs_falsy_def)
  finally show ?thesis using first by (intro conjI)
qed

subsection \<open>Rounding to one decimal place\<close>

lemma round_1f_eq:
  assumes "of_int k \<le> x * 10" "x * 10 < of_int k + 1 / 2"
  shows "round_1f x = of_int k / 10"
proof -
  from assms have "\<lfloor>x * 10\<rfloor> = k" by (intro floor_unique) linarith+
  with assms show ?thesis by (simp add: round_1f_def Let_def)
qed

lemma round_1f_ge:
  assumes "of_int k \<le> x * 10"
  shows "of_int k / 10 \<le> round_1f x"
proof -
  from assms have "k \<le> \<lfloor>x * 10\<rfloor>" by (simp add: le_floor_iff)
  then have "(of_int k :: real) \<le> of_int \<lfloor>x * 10\<rfloor>" "(of_int k :: real) \<le> of_int (\<lfloor>x * 10\<rfloor> + 1)"
    by simp_all
  then show ?thesis by (simp add: round_1f_def Let_def)
qed

lemma round_1f_le:
  assumes "x * 10 \<le> of_int k"
  shows "round_1f x \<le> of_int k / 10"
proof (cases "x * 10 = of_int k")
  case True
  then show ?thesis by (simp add: round_1f_def Let_def)
next
  case False
  with assms have "x * 10 < of_int k" by simp
  then have "\<lfloor>x * 10\<rfloor> < k" by (simp add: floor_less_iff)
  then have "\<lfloor>x * 10\<rfloor> + 1 \<le> k" by simp
  then have "(of_int (\<lfloor>x * 10\<rfloor> + 1) :: real) \<le> of_int k" "(of_int \<lfloor>x * 10\<rfloor> :: real) \<le> of_int k"
    by simp_all
  then show ?thesis by (simp add: round_1f_def Let_def)
qed

subsection \<open>The end-to-end scenario\<close>

lemma sqrt_175_bounds: "13228 / 1000 < sqrt 175" "sqrt 175 < 13229 / 1000"
proof -
  have "(13228 / 1000 :: real)\<^sup>2 < 175" by (simp add: power2_eq_square)
  then show "13228 / 1000 < sqrt 175" by (rule real_less_rsqrt)
  have "(175 :: real) < (13229 / 1000)\<^sup>2" by (simp add: power2_eq_square)
  then show "sqrt 175 < 13229 / 1000" by (intro real_less_lsqrt) simp_all
qed

lemma select_scenario: "select_phase controller_A obs_scenario ''A'' li_scenario = Inr 2"
  by (simp add: select_phase_def get_phase_priority_def green_phases_A obs_scenario_def efficiency_A
      li_scenario_def py_sort_desc_def current_eff_of_def)

lemma duration_scenario: "phase_duration controller_A obs_scenario ''A'' li_scenario 2 = 22.7"
proof -
  define s where "s = sqrt 175"
  from sqrt_175_bounds have b: "13228 / 1000 < s" "s < 13229 / 1000" by (simp_all add: s_def)
  have cap: "estimate_phase_capacity obs_scenario ''A'' 2 = 175"
    by (simp add: estimate_phase_capacity_def obs_scenario_def waiting_A)
  have w: "calculate_waiting_traffic obs_scenario ''A'' 2 = 50"
    by (simp add: obs_scenario_def waiting_A)
  have d: "(7 :: real) + 0.27 * 50 + 0.17 * s = 41 / 2 + 17 / 100 * s" by simp
  from b have clamp: "max 7 (min 70 (41 / 2 + 17 / 100 * s)) = 41 / 2 + 17 / 100 * s"
    by (simp add: max_def min_def)
  have "phase_duration controller_A obs_scenario ''A'' li_scenario 2 =
        round_1f (max 7 (min 70 (7 + 0.27 * 50 + 0.17 * s)))"
    unfolding phase_duration_def Let_def cap w
    by (simp add: controller_A_def li_scenario_def flip: s_def)
  also have "\<dots> = round_1f (41 / 2 + 17 / 100 * s)"
    by (simp only: d clamp)
  also have "\<dots> = of_int 227 / 10"
    using b by (intro round_1f_eq) simp_all
  finally show ?thesis by simp
qed

text \<open>
  C2 (corrected). In the scenario of the specification (green phases 0 and 2, phase 0
  current for 10 seconds, switch due now, 5 vehicles waiting on phase 0 and 50 on phase
  2) the call selects phase 2 with duration 22.7: \<open>0.17 * sqrt 175\<close> is about 2.2489,
  so the duration before rounding is about 22.7489, not 22.75.
\<close>

theorem scenario_selects_phase_2_for_22_7:
  "decide_next_phase controller_A obs_scenario =
     Inr (controller_A\<lparr>last_phase_actions := [''A'' \<mapsto> [2 \<mapsto> 1]]\<rparr>,
          Some [(''A'', \<lparr>phase_id = 2, duration = 22.7\<rparr>)])"
proof -
  have t: "time_to_next_switch li_scenario = Some 0" by (simp add: li_scenario_def)
  have s: "select_phase controller_A (obs_A li_scenario [0 \<mapsto> 5, 2 \<mapsto> 50]) ''A'' li_scenario = Inr 2"
    using select_scenario unfolding obs_scenario_def .
  have d: "phase_duration controller_A (obs_A li_scenario [0 \<mapsto> 5, 2 \<mapsto> 50]) ''A'' li_scenario 2 = 22.7"
    using duration_scenario unfolding obs_scenario_def .
  show ?thesis unfolding obs_scenario_def by (rule decide_A[OF t s d])
qed

text \<open>The claim as stated, with duration 22.8, fails.\<close>

theorem scenario_duration_is_not_22_8:
  "\<not> (\<exists>c'. decide_next_phase controller_A obs_scenario =
          Inr (c', Some [(''A'', \<lparr>phase_id = 2, duration = 22.8\<rparr>)]))"
proof -
  have t: "time_to_next_switch li_scenario = Some 0" by (simp add: li_scenario_def)
  have s: "select_phase controller_A (obs_A li_scenario [0 \<mapsto> 5, 2 \<mapsto> 50]) ''A'' li_scenario = Inr 2"
    using select_scenario unfolding obs_scenario_def .
  have d: "phase_duration controller_A (obs_A li_scenario [0 \<mapsto> 5, 2 \<mapsto> 50]) ''A'' li_scenario 2 = 22.7"
    using duration_scenario unfolding obs_scenario_def .
  have "decide_next_phase controller_A obs_scenario =
     Inr (controller_A\<lparr>last_phase_actions := [''A'' \<mapsto> [2 \<mapsto> 1]]\<rparr>,
          Some [(''A'', \<lparr>phase_id = 2, duration = 22.7\<rparr>)])"
    unfolding obs_scenario_def by (rule decide_A[OF t s d])
  then show ?thesis by simp
qed

subsection \<open>Ties in the rankings\<close>









subsection \<open>Bounds of the duration\<close>

lemma dec_027: "(0.27::real) = 27 / 100"
  by simp

lemma dec_017: "(0.17::real) = 17 / 100"
  by simp

lemma capacity_nonneg_waiting:
  "0 \<le> calculate_waiting_traffic obs t p \<Longrightarrow> 100 \<le> estimate_phase_capacity obs t p"
  by (simp add: estimate_phase_capacity_def max_def)

lemma clamp_le: "max (7::real) (min 70 x) \<le> 70"
  by simp

lemma clamp_ge: "87 / 10 \<le> x \<Longrightarrow> 87 / 10 \<le> max 7 (min 70 (x::real))"
  by simp

lemma undecayed_ge:
  assumes w: "0 \<le> w" and cap: "100 \<le> cap"
  shows "87 / 10 \<le> max 7 (min 70 (7 + 0.27 * w + 0.17 * sqrt cap))"
proof -
  from cap have "sqrt 100 \<le> sqrt cap" by (rule real_sqrt_le_mono)
  then have s: "10 \<le> sqrt cap" by (simp only: sqrt_100)
  from w have "0 \<le> 27 / 100 * w" by simp
  with s have "87 / 10 \<le> 7 + 27 / 100 * w + 17 / 100 * sqrt cap" by linarith
  then have "87 / 10 \<le> 7 + 0.27 * w + 0.17 * sqrt cap" by (simp only: dec_027 dec_017)
  then show ?thesis by (rule clamp_ge)
qed

lemma decay_bounds:
  assumes "87 / 10 \<le> d" "d \<le> (70::real)"
  shows "78 / 10 \<le> (if b then d * 0.9 else d) \<and> (if b then d * 0.9 else d) \<le> 70"
  using assms by (cases b) simp_all

lemma phase_duration_bounds:
  assumes w: "0 \<le> calculate_waiting_traffic obs t p"
    and lo: "min_green_duration c = 7" and hi: "max_green_duration c = 70"
  shows "78 / 10 \<le> phase_duration c obs t li p \<and> phase_duration c obs t li p \<le> 70"
proof -
  define d where "d = max 7 (min 70 (7 + 0.27 * calculate_waiting_traffic obs t p
                          + 0.17 * sqrt (estimate_phase_capacity obs t p)))"
  define e where "e = (if (case time_in_phase li of None \<Rightarrow> 0 | Some x \<Rightarrow> x) > 60 then d * 0.9 else d)"
  have pd: "phase_duration c obs t li p = round_1f e"
    unfolding phase_duration_def Let_def lo hi e_def d_def by (rule refl)
  from undecayed_ge[OF w capacity_nonneg_waiting[OF w]] have dlo: "87 / 10 \<le> d"
    by (simp only: d_def)
  have dhi: "d \<le> 70" unfolding d_def by (rule clamp_le)
  from decay_bounds[OF dlo dhi] have "78 / 10 \<le> e \<and> e \<le> 70"
    by (simp only: e_def)
  then have "of_int 78 \<le> e * 10" "e * 10 \<le> of_int 700" by simp_all
  from round_1f_ge[OF this(1)] round_1f_le[OF this(2)] show ?thesis
    by (simp add: pd)
qed

text \<open>An entry of a returned decision comes from an eligible intersection.\<close>

lemma decide_next_phase_entry_origin:
  assumes d: "decide_next_phase c obs = Inr (c', Some dec)" and m: "map_of dec t = Some a"
  shows "\<exists>li. t \<in> set (tls_ids c) \<and> eligible obs t = Some li \<and> decide_one c obs t li = Inr a"
proof -
  from decide_next_phase_loop[OF d] obtain dec' where
    l: "decide_loop obs (tls_ids c) c [] = Inr (c', dec')"
    and r: "Some dec = (if dec' = [] then None else Some dec')" by blast
  from r have dd: "dec' = dec" by (simp split: if_splits)
  have in_ids: "t \<in> set (tls_ids c) \<and> eligible obs t \<noteq> None"
  proof (rule ccontr)
    assume "\<not> (t \<in> set (tls_ids c) \<and> eligible obs t \<noteq> None)"
    then have "t \<notin> set (tls_ids c) \<or> eligible obs t = None" by blast
    from decide_loop_other[OF l this] m dd show False by simp
  qed
  then obtain li where tin: "t \<in> set (tls_ids c)" and e: "eligible obs t = Some li" by auto
  from decide_loop_entry[OF l tin e] m dd have "decide_one c obs t li = Inr a" by auto
  with tin e show ?thesis by blast
qed

lemma emitted_duration_bounds:
  assumes "controller_inv c"
    and "decide_next_phase c obs = Inr (c', Some dec)" and "map_of dec t = Some a"
    and "\<forall>p. 0 \<le> calculate_waiting_traffic obs t p"
  shows "78 / 10 \<le> duration a \<and> duration a \<le> 70"
proof -
  from decide_next_phase_entry_origin[OF assms(2,3)] obtain li where
    a: "decide_one c obs t li = Inr a" by blast
  then have "duration a = phase_duration c obs t li (phase_id a)"
    by (auto simp: decide_one_def split: sum.splits)
  moreover from assms(1) have "min_green_duration c = 7" "max_green_duration c = 70"
    by (simp_all add: controller_inv_def)
  moreover from assms(4) have "0 \<le> calculate_waiting_traffic obs t (phase_id a)" by blast
  ultimately show ?thesis using phase_duration_bounds by simp
qed

text \<open>
  C3 (corrected). The claim says that some eligible observation with non-negative
  waiting counts and \<open>time_in_phase > 60\<close> gets a duration below 7.0. There is none.
\<close>

theorem no_duration_below_min_green:
  "\<not> (\<exists>c obs c' dec t a li.
         controller_inv c \<and> (\<forall>u p. 0 \<le> calculate_waiting_traffic obs u p) \<and>
         decide_next_phase c obs = Inr (c', Some dec) \<and> map_of dec t = Some a \<and>
         eligible obs t = Some li \<and> 60 < tip_of li \<and> duration a < 7)"
proof
  assume "\<exists>c obs c' dec t a li.
         controller_inv c \<and> (\<forall>u p. 0 \<le> calculate_waiting_traffic obs u p) \<and>
         decide_next_phase c obs = Inr (c', Some dec) \<and> map_of dec t = Some a \<and>
         eligible obs t = Some li \<and> 60 < tip_of li \<and> duration a < 7"
  then obtain c obs c' dec t a where i: "controller_inv c"
    and w: "\<forall>u p. 0 \<le> calculate_waiting_traffic obs u p"
    and d: "decide_next_phase c obs = Inr (c', Some dec)" and m: "map_of dec t = Some a"
    and lt: "duration a < 7" by blast
  from w have "\<forall>p. 0 \<le> calculate_waiting_traffic obs t p" by blast
  from emitted_duration_bounds[OF i d m this] lt show False by simp
qed

text \<open>
  C3 as amended. With non-negative waiting counts the duration before the decay is at
  least \<open>7 + 0.17 * sqrt 100 = 8.7\<close>, so every duration a constructed controller emits,
  decayed or not, lies between 7.8 and 70: the window between \<open>min_green\<close> and
  \<open>min_green / 0.9\<close> is not reached.
\<close>

theorem emitted_duration_at_least_7_8:
  assumes "controller_inv c"
    and "decide_next_phase c obs = Inr (c', Some dec)" and "map_of dec t = Some a"
    and "\<forall>p. 0 \<le> calculate_waiting_traffic obs t p"
  shows "7.8 \<le> duration a \<and> duration a \<le> 70"
  using emitted_duration_bounds[OF assms] by simp

lemma select_long: "select_phase controller_A obs_long ''A'' li_long = Inr 0"
  by (simp add: select_phase_def get_phase_priority_def green_phases_A obs_long_def efficiency_A
      li_long_def py_sort_desc_def current_eff_of_def)

lemma duration_long: "phase_duration controller_A obs_long ''A'' li_long 0 = 7.8"
  by (simp add: phase_duration_def controller_A_def obs_long_def waiting_A li_long_def
      estimate_phase_capacity_def sqrt_100 round_1f_def Let_def)

theorem emitted_duration_at_least_7_8_witness:
  "time_in_phase li_long = Some 61 \<and>
   decide_next_phase controller_A obs_long =
     Inr (controller_A\<lparr>last_phase_actions := [''A'' \<mapsto> [0 \<mapsto> 1]]\<rparr>,
          Some [(''A'', \<lparr>phase_id = 0, duration = 7.8\<rparr>)]) \<and>
   7.8 \<le> duration \<lparr>phase_id = 0, duration = 7.8\<rparr> \<and> duration \<lparr>phase_id = 0, duration = 7.8\<rparr> \<le> 70"
proof -
  have t: "time_to_next_switch li_long = Some 0" by (simp add: li_long_def)
  have s: "select_phase controller_A (obs_A li_long Map.empty) ''A'' li_long = Inr 0"
    using select_long unfolding obs_long_def .
  have d: "phase_duration controller_A (obs_A li_long Map.empty) ''A'' li_long 0 = 7.8"
    using duration_long unfolding obs_long_def .
  have r: "decide_next_phase controller_A obs_long =
     Inr (controller_A\<lparr>last_phase_actions := [''A'' \<mapsto> [0 \<mapsto> 1]]\<rparr>,
          Some [(''A'', \<lparr>phase_id = 0, duration = 7.8\<rparr>)])"
    unfolding obs_long_def by (rule decide_A[OF t s d])
  have m: "map_of [(''A'', \<lparr>phase_id = 0, duration = 7.8\<rparr>)] ''A'' = Some \<lparr>phase_id = 0, duration = 7.8\<rparr>"
    by simp
  have w: "\<forall>p. 0 \<le> calculate_waiting_traffic obs_long ''A'' p"
    by (simp add: obs_long_def waiting_A)
  from emitted_duration_at_least_7_8[OF controller_inv_A r m w]
  have "7.8 \<le> duration \<lparr>phase_id = 0, duration = 7.8\<rparr> \<and> duration \<lparr>phase_id = 0, duration = 7.8\<rparr> \<le> 70" .
  moreover have "time_in_phase li_long = Some 61" by (simp add: li_long_def)
  ultimately show ?thesis using r by (intro conjI) simp_all
qed

end
